theory Spec2Isabelle
  imports Main
begin

section \<open>Strings and JavaScript values\<close>

text \<open>
  A JavaScript string is modelled as a \<^typ>\<open>string\<close>: each \<^typ>\<open>char\<close> stands for one
  code unit of the source string, so the model covers the strings whose code units are
  below 256. A value that may be \<open>null\<close> or \<open>undefined\<close> is a \<^typ>\<open>string option\<close>,
  with \<^term>\<open>None\<close> for both.
\<close>

text \<open>JavaScript truthiness of a string-or-null value: \<open>null\<close> and \<open>""\<close> are falsy.\<close>

fun truthy :: "string option \<Rightarrow> bool" where
  "truthy None = False"
| "truthy (Some s) = (s \<noteq> [])"

text \<open>What a template literal \<open>`${x}`\<close> prints for a string-or-null value.\<close>

fun template :: "string option \<Rightarrow> string" where
  "template None = ''null''"
| "template (Some s) = s"

text \<open>The class \<open>\d\<close> of a JavaScript regular expression: the ten ASCII digits.\<close>

definition is_digit :: "char \<Rightarrow> bool" where
  "is_digit c = (c \<in> set ''0123456789'')"

text \<open>
  The class \<open>\s\<close>, which is also what \<open>String.prototype.trim\<close> strips: tab, line feed,
  vertical tab, form feed, carriage return, space and no-break space (the members below
  256).
\<close>

definition is_space :: "char \<Rightarrow> bool" where
  "is_space c = (c \<in> {CHR 0x09, CHR 0x0A, CHR 0x0B, CHR 0x0C, CHR 0x0D, CHR 0x20, CHR 0xA0})"

text \<open>The line terminators, which \<open>.\<close> does not match: line feed and carriage return.\<close>

definition is_line_terminator :: "char \<Rightarrow> bool" where
  "is_line_terminator c = (c \<in> {CHR 0x0A, CHR 0x0D})"

definition trim :: "string \<Rightarrow> string" where
  "trim s = rev (dropWhile is_space (rev (dropWhile is_space s)))"

text \<open>\<open>s.split(sep)\<close> for a one-character separator: empty parts are kept.\<close>

fun split :: "char \<Rightarrow> string \<Rightarrow> string list" where
  "split sep [] = [[]]"
| "split sep (c # cs) =
     (if c = sep then [] # split sep cs
      else (case split sep cs of
              [] \<Rightarrow> [[c]]
            | p # ps \<Rightarrow> (c # p) # ps))"

text \<open>\<open>s.padStart(2, '0')\<close>.\<close>

definition padStart2 :: "string \<Rightarrow> string" where
  "padStart2 s = replicate (2 - length s) (CHR ''0'') @ s"

section \<open>The date and field normalizer (d1-adapter.js)\<close>

subsection \<open>convertDate\<close>

text \<open>The test \<open>dateStr.match(/^\d{4}-\d{2}-\d{2}$/)\<close>.\<close>

definition matches_iso_date :: "string \<Rightarrow> bool" where
  "matches_iso_date s =
     (length s = 10 \<and>
      list_all is_digit (take 4 s) \<and> s ! 4 = CHR ''-'' \<and>
      list_all is_digit (take 2 (drop 5 s)) \<and> s ! 7 = CHR ''-'' \<and>
      list_all is_digit (drop 8 s))"

text \<open>
  \<^verbatim>\<open>
  convertDate(dateStr) {
      if (!dateStr) return null;
      if (dateStr.match(/^\d{4}-\d{2}-\d{2}$/)) { return dateStr; }
      const [day, month, year] = dateStr.split('/');
      if (!day || !month || !year) return null;
      return `${year}-${month.padStart(2, '0')}-${day.padStart(2, '0')}`;
  }
  \<close>
  A part that the destructuring leaves \<open>undefined\<close> (fewer than three parts) is falsy,
  as an empty part is.
\<close>

definition convertDate :: "string option \<Rightarrow> string option" where
  "convertDate dateStr =
     (case dateStr of
        None \<Rightarrow> None
      | Some s \<Rightarrow>
          if s = [] then None
          else if matches_iso_date s then Some s
          else (case split (CHR ''/'') s of
                  day # month # year # _ \<Rightarrow>
                    if day = [] \<or> month = [] \<or> year = [] then None
                    else Some (year @ ''-'' @ padStart2 month @ ''-'' @ padStart2 day)
                | _ \<Rightarrow> None))"

subsection \<open>extractCountry\<close>

text \<open>
  \<open>(.+)$\<close> at the start of \<open>cs\<close>: one or more characters other than line terminators,
  up to the end of the input (the expression has no \<open>m\<close> flag).
\<close>

definition group_to_end :: "string \<Rightarrow> string option" where
  "group_to_end cs =
     (if cs \<noteq> [] \<and> list_all (\<lambda>c. \<not> is_line_terminator c) cs then Some cs else None)"

text \<open>
  \<open>\s+(.+)$\<close> at the start of \<open>cs\<close>, returning the group. \<open>\s+\<close> is greedy: it first
  tries to take one more white-space character and backtracks to the shorter run only
  when the rest of the expression fails there.
\<close>

fun spaces_then_group :: "string \<Rightarrow> string option" where
  "spaces_then_group [] = None"
| "spaces_then_group (c # cs) =
     (if is_space c then
        (case spaces_then_group cs of
           Some g \<Rightarrow> Some g
         | None \<Rightarrow> group_to_end cs)
      else None)"

text \<open>\<open>v\.\s+(.+)$\<close> at the start of \<open>s\<close>.\<close>

fun match_here :: "string \<Rightarrow> string option" where
  "match_here (a # b # cs) =
     (if a = CHR ''v'' \<and> b = CHR ''.'' then spaces_then_group cs else None)"
| "match_here _ = None"

text \<open>\<open>title.match(/v\.\s+(.+)$/)\<close>: the leftmost position where the expression matches.\<close>

fun match_title :: "string \<Rightarrow> string option" where
  "match_title [] = None"
| "match_title (c # cs) =
     (case match_here (c # cs) of
        Some g \<Rightarrow> Some g
      | None \<Rightarrow> match_title cs)"

datatype error =
    TypeError
  | RepresentativeNameRequired
  | FailedToGetRepresentativeId
  | FailedToGetApplicationId
  | SqlError
  | ShellError
  | TransportError
  | FetchError

text \<open>
  \<^verbatim>\<open>
  extractCountry(title) {
      const match = title.match(/v\.\s+(.+)$/);
      return match ? match[1].trim() : null;
  }
  \<close>
  A \<open>null\<close> title makes \<open>title.match\<close> raise a TypeError.
\<close>

definition extractCountry :: "string option \<Rightarrow> error + string option" where
  "extractCountry title =
     (case title of
        None \<Rightarrow> Inl TypeError
      | Some t \<Rightarrow>
          (case match_title t of
             Some g \<Rightarrow> Inr (Some (trim g))
           | None \<Rightarrow> Inr None))"

subsection \<open>isCaseClosed\<close>

text \<open>
  \<open>toLowerCase\<close> on one code unit below 256: the ASCII capitals and the Latin-1 capitals
  (\<open>0xC0\<close> to \<open>0xDE\<close> without the multiplication sign \<open>0xD7\<close>) move up by 32.
\<close>

definition char_toLowerCase :: "char \<Rightarrow> char" where
  "char_toLowerCase c =
     (let n = (of_char c :: nat) in
      if (65 \<le> n \<and> n \<le> 90) \<or> (192 \<le> n \<and> n \<le> 222 \<and> n \<noteq> 215)
      then char_of (n + 32) else c)"

definition toLowerCase :: "string \<Rightarrow> string" where
  "toLowerCase s = map char_toLowerCase s"

text \<open>\<open>s.includes(pat)\<close>: \<open>pat\<close> occurs in \<open>s\<close> as a contiguous substring.\<close>

fun includes_str :: "string \<Rightarrow> string \<Rightarrow> bool" where
  "includes_str [] pat = (pat = [])"
| "includes_str (c # cs) pat = (take (length pat) (c # cs) = pat \<or> includes_str cs pat)"

text \<open>
  \<^verbatim>\<open>
  isCaseClosed(lastMajorEvent) {
      if (!lastMajorEvent) return false;
      const eventLower = lastMajorEvent.toLowerCase();
      return eventLower.includes('finished') || eventLower.includes('inadmissible');
  }
  \<close>
\<close>

definition isCaseClosed :: "string option \<Rightarrow> bool" where
  "isCaseClosed lastMajorEvent =
     (case lastMajorEvent of
        None \<Rightarrow> False
      | Some s \<Rightarrow>
          if s = [] then False
          else (let eventLower = toLowerCase s in
                includes_str eventLower ''finished'' \<or> includes_str eventLower ''inadmissible''))"

section \<open>Fetched records (improved-scraper.js)\<close>

text \<open>
  The object \<open>scrapeECHRApplication\<close> returns. Each text field is the trimmed text of a
  page element or \<open>null\<close>; \<open>majorEventsList\<close> is always an array.
\<close>

record major_event =
  description :: "string option"
  eventDate :: "string option"

record case_record =
  applicationNumber :: "string option"
  applicationTitle :: "string option"
  dateIntroduction :: "string option"
  representant :: "string option"
  lastMajorEvent :: "string option"
  lastMajorEventDate :: "string option"
  majorEventsList :: "major_event list"

section \<open>The database\<close>

text \<open>
  The three tables the adapter writes. The columns \<open>last_checked_date\<close> and \<open>updated_at\<close>
  hold the wall-clock values \<open>DATE('now')\<close> and \<open>CURRENT_TIMESTAMP\<close> and are left out of the
  rows. \<open>skip_scraping\<close> and \<open>is_closed\<close> hold 0 or 1 and are booleans here.
\<close>

record application_row =
  app_id :: nat
  application_number :: string
  application_title :: string
  country :: "string option"
  date_introduction :: string
  representative_id :: "nat option"
  representative_name :: "string option"
  last_major_event :: "string option"
  last_major_event_date :: "string option"
  is_closed :: bool
  not_found_count :: int
  skip_scraping :: bool

record event_row =
  application_id :: "nat option"
  event_date :: string
  event_description :: string
  is_last_event :: bool

record representative_row =
  rep_id :: nat
  rep_name :: string

record database =
  applications :: "application_row list"
  events :: "event_row list"
  representatives :: "representative_row list"

subsection \<open>The statements the adapter builds\<close>

text \<open>
  The adapter assembles SQL text. The model keeps each statement as a value: the kind of
  statement and the values its literals denote. A quoted literal built with
  \<open>escapeSQL\<close> (every \<open>'\<close> doubled) denotes the string itself; the application number is
  interpolated between quotes without escaping and is read the same way, which is what
  SQLite reads for a number free of quotes.
\<close>

datatype representative_ref =
    RepNull
  | RepId nat
  | RepByName string

datatype application_ref =
    AppId nat
  | AppByNumber string

text \<open>
  The \<open>VALUES\<close> tuple of the application upsert. \<open>v_not_found_count\<close> is \<^term>\<open>None\<close> when
  the \<open>INSERT\<close> does not list the column (the single-record statement), so that a new row
  takes the default of the schema.
\<close>

record application_values =
  v_application_number :: string
  v_application_title :: string
  v_country :: "string option"
  v_date_introduction :: string
  v_representative :: representative_ref
  v_representative_name :: "string option"
  v_last_major_event :: "string option"
  v_last_major_event_date :: "string option"
  v_is_closed :: bool
  v_not_found_count :: "int option"

record event_values =
  ev_application :: application_ref
  ev_event_date :: string
  ev_description :: string
  ev_is_last_event :: bool

datatype statement =
    SelectRepresentativeId string
  | InsertOrIgnoreRepresentatives "string list"
  | InsertApplicationOnConflictUpdate application_values
  | SelectApplicationId string
  | DeleteEvents application_ref
  | InsertEvents "event_values list"
  | UpdateNotFound string

subsection \<open>The texts of a command\<close>

text \<open>
  The texts that the adapter interpolates into the SQL of a statement, each between single
  quotes. The rest of the SQL is fixed text of the adapter and numbers.
\<close>

fun application_ref_texts :: "application_ref \<Rightarrow> string list" where
  "application_ref_texts (AppId n) = []"
| "application_ref_texts (AppByNumber number) = [number]"

fun representative_ref_texts :: "representative_ref \<Rightarrow> string list" where
  "representative_ref_texts RepNull = []"
| "representative_ref_texts (RepId n) = []"
| "representative_ref_texts (RepByName name) = [name]"

fun optional_text :: "string option \<Rightarrow> string list" where
  "optional_text None = []"
| "optional_text (Some s) = [s]"

definition application_texts :: "application_values \<Rightarrow> string list" where
  "application_texts v =
     [v_application_number v, v_application_title v] @ optional_text (v_country v) @
     [v_date_introduction v] @ representative_ref_texts (v_representative v) @
     optional_text (v_representative_name v) @ optional_text (v_last_major_event v) @
     optional_text (v_last_major_event_date v)"

definition event_texts :: "event_values \<Rightarrow> string list" where
  "event_texts v = application_ref_texts (ev_application v) @ [ev_event_date v, ev_description v]"

fun statement_texts :: "statement \<Rightarrow> string list" where
  "statement_texts (SelectRepresentativeId name) = [name]"
| "statement_texts (InsertOrIgnoreRepresentatives names) = names"
| "statement_texts (InsertApplicationOnConflictUpdate v) = application_texts v"
| "statement_texts (SelectApplicationId number) = [number]"
| "statement_texts (DeleteEvents ref) = application_ref_texts ref"
| "statement_texts (InsertEvents rows) = concat (map event_texts rows)"
| "statement_texts (UpdateNotFound number) = [number]"

text \<open>
  \<open>executeSQL\<close> escapes every double quote of the SQL and puts it between double quotes
  in a command line that \<open>execSync\<close> hands to \<open>/bin/sh\<close>. Between double quotes the shell
  still reads the dollar sign, the backquote and the backslash; and a command line cannot
  hold the character with code 0. A text with none of these four reaches the database as
  it is. The fixed text of the adapter's SQL has none of them.
\<close>

definition shell_special :: "char \<Rightarrow> bool" where
  "shell_special c = (c \<in> {CHR ''$'', CHR 0x60, CHR 0x5C, CHR 0x00})"

definition shell_plain :: "string \<Rightarrow> bool" where
  "shell_plain s = list_all (\<lambda>c. \<not> shell_special c) s"

definition plain_command :: "statement list \<Rightarrow> bool" where
  "plain_command sql = list_all shell_plain (concat (map statement_texts sql))"

text \<open>An answer of the Import API to a poll, as \<open>pollImport\<close> reads it.\<close>

datatype poll_answer =
    PollSuccess
  | PollNotImporting
  | PollOtherError
  | PollRaises

subsection \<open>The environment of a run\<close>

text \<open>
  What the program does not decide: the pages the court's site serves, the calls to the
  database that fail in transport, what the shell makes of a command that is not plain,
  the answers of the Import API to the polls, whether a command of several statements
  that fails is rolled back, and the two column defaults of the schema (which is not part
  of the repository).
  \<^item> \<open>transport_fails k\<close> says whether the \<open>k\<close>-th call to the database raises before
    reaching it.
  \<^item> \<open>expanded sql\<close> is the command that reaches the database when the shell has expanded
    the variables, command substitutions and escapes of \<open>sql\<close>, or \<^term>\<open>None\<close> when the
    shell or \<open>wrangler\<close> fails on it; it depends on the variables and programs of the
    machine. It may be any command made of the seven kinds of statement above, with any
    texts; an expansion that makes SQL of another kind is outside the model.
  \<^item> \<open>poll k i\<close> is the answer to the \<open>i\<close>-th poll about the import started by the \<open>k\<close>-th
    call: \<open>success\<close>, no success with the error \<open>Not currently importing anything.\<close>, no
    success with any other error, or no answer that can be read (the request or the
    reading of \<open>result.result\<close> raises).
\<close>

record env =
  scrapeECHRApplication :: "int \<Rightarrow> int \<Rightarrow> error + case_record option"
  transport_fails :: "nat \<Rightarrow> bool"
  expanded :: "statement list \<Rightarrow> statement list option"
  poll :: "nat \<Rightarrow> nat \<Rightarrow> poll_answer"
  atomic_commands :: bool
  default_not_found_count :: int
  default_skip_scraping :: bool

subsection \<open>What the statements do\<close>

definition lookup_representative_id :: "database \<Rightarrow> string \<Rightarrow> nat option" where
  "lookup_representative_id d name =
     (case filter (\<lambda>r. rep_name r = name) (representatives d) of
        [] \<Rightarrow> None
      | r # _ \<Rightarrow> Some (rep_id r))"

definition lookup_application_id :: "database \<Rightarrow> string \<Rightarrow> nat option" where
  "lookup_application_id d number =
     (case filter (\<lambda>r. application_number r = number) (applications d) of
        [] \<Rightarrow> None
      | r # _ \<Rightarrow> Some (app_id r))"

text \<open>A new row takes the next integer key after the largest one in the table.\<close>

definition fresh_id :: "nat list \<Rightarrow> nat" where
  "fresh_id ids = Suc (fold max ids 0)"

definition insert_or_ignore_representative :: "string \<Rightarrow> database \<Rightarrow> database" where
  "insert_or_ignore_representative name d =
     (if list_ex (\<lambda>r. rep_name r = name) (representatives d) then d
      else d\<lparr>representatives := representatives d @
             [\<lparr>rep_id = fresh_id (map rep_id (representatives d)), rep_name = name\<rparr>]\<rparr>)"

fun resolve_representative :: "database \<Rightarrow> representative_ref \<Rightarrow> nat option" where
  "resolve_representative d RepNull = None"
| "resolve_representative d (RepId n) = Some n"
| "resolve_representative d (RepByName name) = lookup_representative_id d name"

fun resolve_application :: "database \<Rightarrow> application_ref \<Rightarrow> nat option" where
  "resolve_application d (AppId n) = Some n"
| "resolve_application d (AppByNumber number) = lookup_application_id d number"

text \<open>
  The \<open>ON CONFLICT(application_number) DO UPDATE SET\<close> clause: the nine listed columns
  take the values of the rejected row, \<open>not_found_count\<close> becomes 0, and the key and
  \<open>skip_scraping\<close> stay.
\<close>

definition on_conflict_update ::
  "application_values \<Rightarrow> nat option \<Rightarrow> application_row \<Rightarrow> application_row" where
  "on_conflict_update v rep r =
     r\<lparr>application_title := v_application_title v,
       country := v_country v,
       date_introduction := v_date_introduction v,
       representative_id := rep,
       representative_name := v_representative_name v,
       last_major_event := v_last_major_event v,
       last_major_event_date := v_last_major_event_date v,
       is_closed := v_is_closed v,
       not_found_count := 0\<rparr>"

definition inserted_application ::
  "env \<Rightarrow> application_values \<Rightarrow> nat option \<Rightarrow> nat \<Rightarrow> application_row" where
  "inserted_application e v rep new_id =
     \<lparr>app_id = new_id,
      application_number = v_application_number v,
      application_title = v_application_title v,
      country = v_country v,
      date_introduction = v_date_introduction v,
      representative_id = rep,
      representative_name = v_representative_name v,
      last_major_event = v_last_major_event v,
      last_major_event_date = v_last_major_event_date v,
      is_closed = v_is_closed v,
      not_found_count =
        (case v_not_found_count v of Some c \<Rightarrow> c | None \<Rightarrow> default_not_found_count e),
      skip_scraping = default_skip_scraping e\<rparr>"

definition upsert_application :: "env \<Rightarrow> application_values \<Rightarrow> database \<Rightarrow> database" where
  "upsert_application e v d =
     (let rep = resolve_representative d (v_representative v);
          number = v_application_number v in
      if list_ex (\<lambda>r. application_number r = number) (applications d)
      then d\<lparr>applications :=
               map (\<lambda>r. if application_number r = number then on_conflict_update v rep r else r)
                   (applications d)\<rparr>
      else d\<lparr>applications := applications d @
               [inserted_application e v rep (fresh_id (map app_id (applications d)))]\<rparr>)"

text \<open>
  \<open>DELETE FROM events WHERE application_id = \<dots>\<close>: a comparison with \<open>NULL\<close> (a subquery
  that finds no application) selects no row.
\<close>

definition delete_events :: "application_ref \<Rightarrow> database \<Rightarrow> database" where
  "delete_events ref d =
     (case resolve_application d ref of
        None \<Rightarrow> d
      | Some n \<Rightarrow> d\<lparr>events := filter (\<lambda>ev. application_id ev \<noteq> Some n) (events d)\<rparr>)"

definition inserted_event :: "database \<Rightarrow> event_values \<Rightarrow> event_row" where
  "inserted_event d v =
     \<lparr>application_id = resolve_application d (ev_application v),
      event_date = ev_event_date v,
      event_description = ev_description v,
      is_last_event = ev_is_last_event v\<rparr>"

text \<open>
  The \<open>UPDATE\<close> of \<open>markAsNotFound\<close>; every right-hand side reads the row as it was before
  the statement:
  \<^verbatim>\<open>
  SET not_found_count = not_found_count + 1,
      skip_scraping = CASE WHEN not_found_count + 1 >= 60 THEN 1 ELSE skip_scraping END
  WHERE application_number = '...'
  \<close>
\<close>

definition update_not_found_row :: "application_row \<Rightarrow> application_row" where
  "update_not_found_row r =
     r\<lparr>not_found_count := not_found_count r + 1,
       skip_scraping := (if not_found_count r + 1 \<ge> 60 then True else skip_scraping r)\<rparr>"

definition update_not_found :: "string \<Rightarrow> database \<Rightarrow> database" where
  "update_not_found number d =
     d\<lparr>applications :=
         map (\<lambda>r. if application_number r = number then update_not_found_row r else r)
             (applications d)\<rparr>"

text \<open>
  One statement: the database after it and the \<open>id\<close> a \<open>SELECT\<close> returns, or the error.
  An \<open>INSERT \<dots> VALUES\<close> with no row after \<open>VALUES\<close> is not a statement of SQL and is
  rejected.
\<close>

fun exec_statement :: "env \<Rightarrow> statement \<Rightarrow> database \<Rightarrow> error + (database \<times> nat option)" where
  "exec_statement e (SelectRepresentativeId name) d = Inr (d, lookup_representative_id d name)"
| "exec_statement e (InsertOrIgnoreRepresentatives names) d =
     (if names = [] then Inl SqlError
      else Inr (fold insert_or_ignore_representative names d, None))"
| "exec_statement e (InsertApplicationOnConflictUpdate v) d = Inr (upsert_application e v d, None)"
| "exec_statement e (SelectApplicationId number) d = Inr (d, lookup_application_id d number)"
| "exec_statement e (DeleteEvents ref) d = Inr (delete_events ref d, None)"
| "exec_statement e (InsertEvents rows) d =
     (if rows = [] then Inl SqlError
      else Inr (d\<lparr>events := events d @ map (inserted_event d) rows\<rparr>, None))"
| "exec_statement e (UpdateNotFound number) d = Inr (update_not_found number d, None)"

text \<open>
  A command of several statements runs them in order and stops at the first error. It
  returns the database reached (on an error: the one before the failing statement) and
  the result of the last statement.
\<close>

fun exec_command :: "env \<Rightarrow> statement list \<Rightarrow> database \<Rightarrow> database \<times> (error + nat option)" where
  "exec_command e [] d = (d, Inr None)"
| "exec_command e (st # sts) d =
     (case exec_statement e st d of
        Inl err \<Rightarrow> (d, Inl err)
      | Inr (d', r) \<Rightarrow> if sts = [] then (d', Inr r) else exec_command e sts d')"

text \<open>
  The database after a command that the database has received: the one the command
  leaves when every statement succeeds; after a failure, the one before the command when
  commands are atomic, and the one before the failing statement otherwise.
\<close>

definition database_after :: "env \<Rightarrow> statement list \<Rightarrow> database \<Rightarrow> database" where
  "database_after e sql d =
     (case exec_command e sql d of
        (d', Inr r) \<Rightarrow> d'
      | (d', Inl err) \<Rightarrow> if atomic_commands e then d else d')"

section \<open>The adapter (d1-adapter.js)\<close>

text \<open>
  The state of a \<open>D1Adapter\<close> together with the database it talks to: the database, the
  number of calls made to it so far, the representative cache with its counter, and
  whether the constructor found the credentials of the Import API.
\<close>

record d1_adapter =
  db :: database
  calls :: nat
  repCache :: "string \<Rightarrow> nat option"
  cacheCounter :: nat
  importAPI :: bool

definition CACHE_FLUSH_INTERVAL :: nat where
  "CACHE_FLUSH_INTERVAL = 100"

text \<open>
  The command as \<open>wrangler\<close> receives it from the shell: a plain command unchanged, any
  other as the shell of the machine expands it.
\<close>

definition shell :: "env \<Rightarrow> statement list \<Rightarrow> statement list option" where
  "shell e sql = (if plain_command sql then Some sql else expanded e sql)"

text \<open>
  \<^verbatim>\<open>
  executeSQL(sql) {
      try {
          const escapedSQL = sql.replace(/"/g, '\\"');
          const command = `npx wrangler d1 execute ${this.databaseName} --command "${escapedSQL}" --remote`;
          const result = execSync(command, { ... });
          return result;
      } catch (error) { throw error; }
  }
  \<close>
  One command goes through the shell to the database; the call raises when the transport,
  the shell or the database fails. After a command that fails in the database, the
  database is the one before the command when commands are atomic, and the one before the
  failing statement otherwise.
\<close>

definition executeSQL ::
  "env \<Rightarrow> statement list \<Rightarrow> d1_adapter \<Rightarrow> (error + nat option) \<times> d1_adapter" where
  "executeSQL e sql a =
     (let a' = a\<lparr>calls := Suc (calls a)\<rparr> in
      if transport_fails e (calls a) then (Inl TransportError, a')
      else (case shell e sql of
              None \<Rightarrow> (Inl ShellError, a')
            | Some received \<Rightarrow>
                (case exec_command e received (db a) of
                   (d, Inr r) \<Rightarrow> (Inr r, a'\<lparr>db := d\<rparr>)
                 | (d, Inl err) \<Rightarrow>
                     (Inl err, a'\<lparr>db := (if atomic_commands e then db a else d)\<rparr>))))"

subsection \<open>The Import API (d1-import-api.js)\<close>

text \<open>
  \<^verbatim>\<open>
  async pollImport(bookmark) {
      const payload = { action: 'poll', current_bookmark: bookmark };
      while (true) {
          const pollResponse = await fetch(this.apiUrl, { ... });
          const result = await pollResponse.json();
          const { success, error } = result.result;
          if (success || (!success && error === 'Not currently importing anything.')) {
              return true;
          }
          await new Promise((resolve) => setTimeout(resolve, 1000));
      }
  }
  \<close>
  The loop has no bound and no exit for an import that has failed: it goes on as long as
  the answers are without success and carry another error. \<open>pollImport e k i\<close> is the loop
  from its \<open>i\<close>-th pass, for the import started by the \<open>k\<close>-th call; it is \<^term>\<open>None\<close>
  when the loop never ends.
\<close>

partial_function (option) pollImport :: "env \<Rightarrow> nat \<Rightarrow> nat \<Rightarrow> (error + bool) option" where
  "pollImport e k i =
     (case poll e k i of
        PollSuccess \<Rightarrow> Some (Inr True)
      | PollNotImporting \<Rightarrow> Some (Inr True)
      | PollRaises \<Rightarrow> Some (Inl FetchError)
      | PollOtherError \<Rightarrow> pollImport e k (Suc i))"

declare pollImport.simps [code]

text \<open>
  \<open>D1ImportAPI.uploadSQL(sqlStatement)\<close> (lines 51-122): the script is uploaded as a file,
  not through a shell. The three requests before the polling (\<open>init\<close>, the upload, and
  \<open>ingest\<close>) raise when one of them fails or is refused, and then the database has run
  nothing. Once \<open>ingest\<close> is accepted the database runs the script, and \<open>uploadSQL\<close> polls
  until \<open>pollImport\<close> returns: it raises what the polling raises, returns \<open>true\<close> when
  the polling does, and does not return when the polling does not. What the script did
  in the database is not read.
\<close>

definition uploadSQL ::
  "env \<Rightarrow> statement list \<Rightarrow> d1_adapter \<Rightarrow> ((error + bool) \<times> d1_adapter) option" where
  "uploadSQL e sqlStatement a =
     (let a' = a\<lparr>calls := Suc (calls a)\<rparr> in
      if transport_fails e (calls a) then Some (Inl TransportError, a')
      else (case pollImport e (calls a) 0 of
              None \<Rightarrow> None
            | Some r \<Rightarrow> Some (r, a'\<lparr>db := database_after e sqlStatement (db a)\<rparr>)))"

subsection \<open>The adapter's operations\<close>

text \<open>\<open>str ? str.replace(/'/g, "''") : null\<close>, as the value the quoted literal denotes.\<close>

definition escapeSQL :: "string option \<Rightarrow> string option" where
  "escapeSQL str = (if truthy str then str else None)"

text \<open>\<open>x ? `'${escapeSQL(x)}'` : 'NULL'\<close>: a falsy value is stored as \<open>NULL\<close>.\<close>

definition literal_or_NULL :: "string option \<Rightarrow> string option" where
  "literal_or_NULL x = (if truthy x then x else None)"

text \<open>\<open>r && r.trim()\<close>.\<close>

fun nonblank :: "string option \<Rightarrow> bool" where
  "nonblank None = False"
| "nonblank (Some r) = (r \<noteq> [] \<and> trim r \<noteq> [])"

text \<open>
  \<^verbatim>\<open>
  async findOrCreateRepresentative(name) {
      if (!name) { throw new Error('Representative name is required'); }
      if (this.repCache.has(name)) { return this.repCache.get(name); }
      const checkSQL = `SELECT id FROM representatives WHERE name = '...'`;
      try {
          const result = this.executeSQL(checkSQL);
          if (result && result.includes('"id"')) {
              const idMatch = result.match(/"id":\s*(\d+)/);
              if (idMatch) { const id = parseInt(idMatch[1]); this.repCache.set(name, id); return id; }
          }
      } catch (error) { }
      this.executeSQL(`INSERT OR IGNORE INTO representatives (name) VALUES ('...')`);
      const idResult = this.executeSQL(`SELECT id FROM representatives WHERE name = '...'`);
      const idMatch = idResult.match(/"id":\s*(\d+)/);
      if (idMatch) { const newId = parseInt(idMatch[1]); this.repCache.set(name, newId); return newId; }
      throw new Error('Failed to get representative ID');
  }
  \<close>
\<close>

definition findOrCreateRepresentative ::
  "env \<Rightarrow> string option \<Rightarrow> d1_adapter \<Rightarrow> (error + nat) \<times> d1_adapter" where
  "findOrCreateRepresentative e name a =
     (case name of
        None \<Rightarrow> (Inl RepresentativeNameRequired, a)
      | Some nm \<Rightarrow>
          if nm = [] then (Inl RepresentativeNameRequired, a)
          else (case repCache a nm of
                  Some cachedId \<Rightarrow> (Inr cachedId, a)
                | None \<Rightarrow>
                    (case executeSQL e [SelectRepresentativeId nm] a of
                       (Inr (Some found_id), a1) \<Rightarrow>
                         (Inr found_id, a1\<lparr>repCache := (repCache a1)(nm \<mapsto> found_id)\<rparr>)
                     | (_, a1) \<Rightarrow>
                         (case executeSQL e [InsertOrIgnoreRepresentatives [nm]] a1 of
                            (Inl err, a2) \<Rightarrow> (Inl err, a2)
                          | (Inr _, a2) \<Rightarrow>
                              (case executeSQL e [SelectRepresentativeId nm] a2 of
                                 (Inl err, a3) \<Rightarrow> (Inl err, a3)
                               | (Inr (Some newId), a3) \<Rightarrow>
                                   (Inr newId, a3\<lparr>repCache := (repCache a3)(nm \<mapsto> newId)\<rparr>)
                               | (Inr None, a3) \<Rightarrow> (Inl FailedToGetRepresentativeId, a3))))))"

text \<open>
  \<^verbatim>\<open>
  flushCacheIfNeeded() {
      this.cacheCounter++;
      if (this.cacheCounter >= this.CACHE_FLUSH_INTERVAL) { this.repCache.clear(); this.cacheCounter = 0; }
  }
  \<close>
\<close>

definition flushCacheIfNeeded :: "d1_adapter \<Rightarrow> d1_adapter" where
  "flushCacheIfNeeded a =
     (let a1 = a\<lparr>cacheCounter := cacheCounter a + 1\<rparr> in
      if cacheCounter a1 \<ge> CACHE_FLUSH_INTERVAL
      then a1\<lparr>repCache := (\<lambda>_. None), cacheCounter := 0\<rparr>
      else a1)"

text \<open>
  The rows of the events \<open>INSERT\<close>, built alike by \<open>saveApplication\<close> and by
  \<open>buildBatchSQLWithReps\<close>:
  \<^verbatim>\<open>
  data.majorEventsList.map((event, i) => {
      const eventDate = this.convertDate(event.eventDate);
      const isLastEvent = (i === data.majorEventsList.length - 1) ? 1 : 0;
      return `(<application>, '${eventDate}', '${escapeSQL(event.description)}', ${isLastEvent})`;
  })
  \<close>
\<close>

definition eventValues :: "application_ref \<Rightarrow> major_event list \<Rightarrow> event_values list" where
  "eventValues ref evs =
     map (\<lambda>(i, event).
            \<lparr>ev_application = ref,
             ev_event_date = template (convertDate (eventDate event)),
             ev_description = template (escapeSQL (description event)),
             ev_is_last_event = (int i = int (length evs) - 1)\<rparr>)
         (enumerate 0 evs)"

text \<open>
  The upsert built by \<open>saveApplication\<close> (lines 205-234). The \<open>INSERT\<close> does not list
  \<open>not_found_count\<close>; \<open>${representativeId || 'NULL'}\<close> writes \<open>NULL\<close> for a missing id and
  for the id 0.
\<close>

definition appValues :: "case_record \<Rightarrow> nat option \<Rightarrow> string option \<Rightarrow> application_values" where
  "appValues data representativeId ctry =
     \<lparr>v_application_number = template (applicationNumber data),
      v_application_title = template (escapeSQL (applicationTitle data)),
      v_country = literal_or_NULL ctry,
      v_date_introduction = template (convertDate (dateIntroduction data)),
      v_representative =
        (case representativeId of
           None \<Rightarrow> RepNull
         | Some n \<Rightarrow> if n = 0 then RepNull else RepId n),
      v_representative_name = literal_or_NULL (representant data),
      v_last_major_event = literal_or_NULL (lastMajorEvent data),
      v_last_major_event_date = literal_or_NULL (convertDate (lastMajorEventDate data)),
      v_is_closed = isCaseClosed (lastMajorEvent data),
      v_not_found_count = None\<rparr>"

definition appSQL :: "case_record \<Rightarrow> nat option \<Rightarrow> string option \<Rightarrow> statement" where
  "appSQL data representativeId ctry =
     InsertApplicationOnConflictUpdate (appValues data representativeId ctry)"

text \<open>
  The events command of \<open>saveApplication\<close> (lines 251-267), one command of two statements.
  The \<open>INSERT\<close> is built whether or not the list has an element.
\<close>

definition eventsSQL :: "nat \<Rightarrow> case_record \<Rightarrow> statement list" where
  "eventsSQL applicationId data =
     [DeleteEvents (AppId applicationId),
      InsertEvents (eventValues (AppId applicationId) (majorEventsList data))]"

text \<open>
  \<open>saveApplication(data)\<close>: the whole body is inside \<open>try\<close>, and the \<open>catch\<close> returns
  \<open>false\<close>. The steps, in the order of the source: the representative (when the name is
  not blank), the dates and the country, the upsert, the \<open>SELECT\<close> of the application id
  (\<open>'Failed to get application ID'\<close> when it finds none), the events command, the cache.
\<close>

definition saveApplication :: "env \<Rightarrow> case_record \<Rightarrow> d1_adapter \<Rightarrow> bool \<times> d1_adapter" where
  "saveApplication e data a =
     (case (if nonblank (representant data)
            then (case findOrCreateRepresentative e (representant data) a of
                    (Inl err, a1) \<Rightarrow> (Inl err, a1)
                  | (Inr rid, a1) \<Rightarrow> (Inr (Some rid), a1))
            else (Inr None, a)) of
        (Inl err, a1) \<Rightarrow> (False, a1)
      | (Inr representativeId, a1) \<Rightarrow>
          (case extractCountry (applicationTitle data) of
             Inl err \<Rightarrow> (False, a1)
           | Inr ctry \<Rightarrow>
               (case executeSQL e [appSQL data representativeId ctry] a1 of
                  (Inl err, a2) \<Rightarrow> (False, a2)
                | (Inr _, a2) \<Rightarrow>
                    (case executeSQL e [SelectApplicationId (template (applicationNumber data))] a2 of
                       (Inl err, a3) \<Rightarrow> (False, a3)
                     | (Inr None, a3) \<Rightarrow> (False, a3)
                     | (Inr (Some applicationId), a3) \<Rightarrow>
                         (case executeSQL e (eventsSQL applicationId data) a3 of
                            (Inl err, a4) \<Rightarrow> (False, a4)
                          | (Inr _, a4) \<Rightarrow> (True, flushCacheIfNeeded a4))))))"

subsection \<open>The batch script\<close>

text \<open>
  \<open>[...new Set(casesData.map(d => d.representant).filter(r => r && r.trim()))]\<close>: the
  non-blank names, each once, in the order of their first occurrence.
\<close>

fun keep_first :: "string list \<Rightarrow> string list" where
  "keep_first [] = []"
| "keep_first (x # xs) = x # keep_first (filter (\<lambda>y. y \<noteq> x) xs)"

definition uniqueReps :: "case_record list \<Rightarrow> string list" where
  "uniqueReps casesData =
     keep_first (List.map_filter
       (\<lambda>d. if nonblank (representant d) then representant d else None) casesData)"

text \<open>
  The upsert built by \<open>buildBatchSQLWithReps\<close> (lines 452-482): the representative is a
  subquery by name, and the \<open>INSERT\<close> lists \<open>not_found_count\<close> with the value 0.
\<close>

definition batchAppValues :: "case_record \<Rightarrow> string option \<Rightarrow> application_values" where
  "batchAppValues data ctry =
     \<lparr>v_application_number = template (applicationNumber data),
      v_application_title = template (escapeSQL (applicationTitle data)),
      v_country = literal_or_NULL ctry,
      v_date_introduction = template (convertDate (dateIntroduction data)),
      v_representative =
        (case representant data of
           None \<Rightarrow> RepNull
         | Some r \<Rightarrow> if nonblank (Some r) then RepByName r else RepNull),
      v_representative_name = literal_or_NULL (representant data),
      v_last_major_event = literal_or_NULL (lastMajorEvent data),
      v_last_major_event_date = literal_or_NULL (convertDate (lastMajorEventDate data)),
      v_is_closed = isCaseClosed (lastMajorEvent data),
      v_not_found_count = Some 0\<rparr>"

definition batchAppSQL :: "case_record \<Rightarrow> string option \<Rightarrow> statement" where
  "batchAppSQL data ctry = InsertApplicationOnConflictUpdate (batchAppValues data ctry)"

text \<open>
  The event statements of one record (lines 484-500): the \<open>DELETE\<close>, and the \<open>INSERT\<close> only
  when the list has an element.
\<close>

definition batchEventStatements :: "case_record \<Rightarrow> statement list" where
  "batchEventStatements data =
     (let ref = AppByNumber (template (applicationNumber data)) in
      DeleteEvents ref #
      (if majorEventsList data \<noteq> []
       then [InsertEvents (eventValues ref (majorEventsList data))]
       else []))"

text \<open>
  The loop over the records (lines 438-505), returning \<open>appStatements\<close> and
  \<open>eventStatements\<close>. A record whose statements cannot be built (\<open>extractCountry\<close> raises
  on a missing title, before anything is pushed) is skipped by the \<open>catch\<close>.
\<close>

fun batchStatements :: "case_record list \<Rightarrow> statement list \<times> statement list" where
  "batchStatements [] = ([], [])"
| "batchStatements (data # rest) =
     (case extractCountry (applicationTitle data) of
        Inl err \<Rightarrow> batchStatements rest
      | Inr ctry \<Rightarrow>
          (batchAppSQL data ctry # fst (batchStatements rest),
           batchEventStatements data @ snd (batchStatements rest)))"

text \<open>
  \<open>buildBatchSQLWithReps(casesData)\<close>: the representatives (when there is one), then all
  the application upserts, then all the event statements.
\<close>

definition buildBatchSQLWithReps :: "case_record list \<Rightarrow> statement list" where
  "buildBatchSQLWithReps casesData =
     (if uniqueReps casesData \<noteq> [] then [InsertOrIgnoreRepresentatives (uniqueReps casesData)]
      else []) @
     fst (batchStatements casesData) @ snd (batchStatements casesData)"

record batch_result =
  success :: nat
  failed :: nat

text \<open>The fallback loop of \<open>saveBatch\<close>: one \<open>saveApplication\<close> per record, counted.\<close>

fun save_individually ::
  "env \<Rightarrow> case_record list \<Rightarrow> batch_result \<Rightarrow> d1_adapter \<Rightarrow> batch_result \<times> d1_adapter" where
  "save_individually e [] res a = (res, a)"
| "save_individually e (data # rest) res a =
     (case saveApplication e data a of
        (True, a1) \<Rightarrow> save_individually e rest (res\<lparr>success := success res + 1\<rparr>) a1
      | (False, a1) \<Rightarrow> save_individually e rest (res\<lparr>failed := failed res + 1\<rparr>) a1)"

text \<open>
  \<^verbatim>\<open>
  async saveBatch(casesData) {
      if (!casesData || casesData.length === 0) { return { success: 0, failed: 0 }; }
      if (this.importAPI) {
          try {
              const batchSQL = this.buildBatchSQLWithReps(casesData);
              await this.importAPI.uploadSQL(batchSQL);
              return { success: casesData.length, failed: 0 };
          } catch (error) { /* fall through to individual saves */ }
      }
      let successCount = 0; let failCount = 0;
      for (const data of casesData) {
          const saved = await this.saveApplication(data);
          if (saved) { successCount++; } else { failCount++; }
      }
      return { success: successCount, failed: failCount };
  }
  \<close>
  The result is \<^term>\<open>None\<close> when the call does not return, which is when \<open>uploadSQL\<close>
  does not.
\<close>

definition saveBatch ::
  "env \<Rightarrow> case_record list \<Rightarrow> d1_adapter \<Rightarrow> (batch_result \<times> d1_adapter) option" where
  "saveBatch e casesData a =
     (if casesData = [] then Some (\<lparr>success = 0, failed = 0\<rparr>, a)
      else if importAPI a then
        (case uploadSQL e (buildBatchSQLWithReps casesData) a of
           None \<Rightarrow> None
         | Some (Inr _, a1) \<Rightarrow> Some (\<lparr>success = length casesData, failed = 0\<rparr>, a1)
         | Some (Inl err, a1) \<Rightarrow>
             Some (save_individually e casesData \<lparr>success = 0, failed = 0\<rparr> a1))
      else Some (save_individually e casesData \<lparr>success = 0, failed = 0\<rparr> a))"

text \<open>
  \<^verbatim>\<open>
  async markAsNotFound(applicationNumber, applicationYear) {
      const fullNumber = `${applicationNumber}/${applicationYear}`;
      try {
          const sql = `UPDATE applications SET ... WHERE application_number = '${fullNumber}'`;
          this.executeSQL(sql);
          return true;
      } catch (error) { return false; }
  }
  \<close>
\<close>

definition markAsNotFound :: "env \<Rightarrow> string \<Rightarrow> string \<Rightarrow> d1_adapter \<Rightarrow> bool \<times> d1_adapter" where
  "markAsNotFound e applicationNumber' applicationYear a =
     (let fullNumber = applicationNumber' @ ''/'' @ applicationYear in
      case executeSQL e [UpdateNotFound fullNumber] a of
        (Inr _, a1) \<Rightarrow> (True, a1)
      | (Inl err, a1) \<Rightarrow> (False, a1))"

section \<open>The monthly scraper\<close>



text \<open>The four fields of the scraper that the constructor sets and \<open>run\<close> only reads.\<close>

record settings =
  startYear :: int
  maxYear :: int
  maxConsecutiveSkips :: int
  startNumber :: int



record run_stats =
  found :: nat
  notFound :: nat
  errors :: nat
  totalChecked :: nat

text \<open>The fields of the scraper that \<open>run\<close> changes.\<close>

record scraper =
  d1 :: d1_adapter
  batchQueue :: "case_record list"
  attemptCounter :: nat
  stats :: run_stats

definition BATCH_ATTEMPTS :: nat where
  "BATCH_ATTEMPTS = 250"

text \<open>The scraper as the constructor leaves it, on the adapter \<open>a\<close>.\<close>

definition new_scraper :: "d1_adapter \<Rightarrow> scraper" where
  "new_scraper a =
     \<lparr>d1 = a, batchQueue = [], attemptCounter = 0,
      stats = \<lparr>found = 0, notFound = 0, errors = 0, totalChecked = 0\<rparr>\<rparr>"

text \<open>
  \<^verbatim>\<open>
  async flushBatch() {
      if (this.batchQueue.length === 0) { return; }
      const result = await this.d1.saveBatch(this.batchQueue);
      this.batchQueue = [];
      this.attemptCounter = 0;
  }
  \<close>
  Here and below, the result is \<^term>\<open>None\<close> when the call does not return.
\<close>

definition flushBatch :: "env \<Rightarrow> scraper \<Rightarrow> scraper option" where
  "flushBatch e s =
     (if batchQueue s = [] then Some s
      else (case saveBatch e (batchQueue s) (d1 s) of
              None \<Rightarrow> None
            | Some (result, a) \<Rightarrow> Some (s\<lparr>d1 := a, batchQueue := [], attemptCounter := 0\<rparr>)))"

text \<open>
  \<open>if (this.attemptCounter >= this.BATCH_ATTEMPTS) { await this.flushBatch(); }\<close>, which
  closes both the \<open>try\<close> block and the \<open>catch\<close> block of the loop body.
\<close>

definition flush_when_due :: "env \<Rightarrow> scraper \<Rightarrow> scraper option" where
  "flush_when_due e s = (if attemptCounter s \<ge> BATCH_ATTEMPTS then flushBatch e s else Some s)"

text \<open>
  One pass through the body of the inner loop of \<open>run\<close> (lines 115-154), for the
  identifier \<open>currentNumber/currentYear\<close>; it returns the new \<open>consecutiveSkips\<close> with the
  scraper. \<open>flushBatch\<close> raises nothing, so the only way into the \<open>catch\<close> block is an
  error raised by \<open>scrapeECHRApplication\<close>, after the \<open>try\<close> block has counted the attempt.
  The pass returns when its flush, if one is due, returns.
  \<^verbatim>\<open>
  this.stats.totalChecked++;
  try {
      this.attemptCounter++;
      const data = await scrapeECHRApplication(currentNumber, currentYear);
      if (data) {
          this.batchQueue.push(data); this.stats.found++; consecutiveSkips = 0;
      } else {
          consecutiveSkips++; this.stats.notFound++;
      }
      if (this.attemptCounter >= this.BATCH_ATTEMPTS) { await this.flushBatch(); }
  } catch (error) {
      this.stats.errors++; consecutiveSkips++; this.attemptCounter++;
      if (this.attemptCounter >= this.BATCH_ATTEMPTS) { await this.flushBatch(); }
  }
  \<close>
\<close>

definition attempt :: "env \<Rightarrow> int \<Rightarrow> int \<Rightarrow> nat \<Rightarrow> scraper \<Rightarrow> (nat \<times> scraper) option" where
  "attempt e currentNumber currentYear consecutiveSkips s =
     (let s1 = s\<lparr>stats := (stats s)\<lparr>totalChecked := totalChecked (stats s) + 1\<rparr>\<rparr>;
          s2 = s1\<lparr>attemptCounter := attemptCounter s1 + 1\<rparr> in
      case scrapeECHRApplication e currentNumber currentYear of
        Inr (Some data) \<Rightarrow>
          map_option (Pair 0)
            (flush_when_due e
               (s2\<lparr>batchQueue := batchQueue s2 @ [data],
                   stats := (stats s2)\<lparr>found := found (stats s2) + 1\<rparr>\<rparr>))
      | Inr None \<Rightarrow>
          map_option (Pair (consecutiveSkips + 1))
            (flush_when_due e (s2\<lparr>stats := (stats s2)\<lparr>notFound := notFound (stats s2) + 1\<rparr>\<rparr>))
      | Inl err \<Rightarrow>
          map_option (Pair (consecutiveSkips + 1))
            (flush_when_due e
               (s2\<lparr>stats := (stats s2)\<lparr>errors := errors (stats s2) + 1\<rparr>,
                   attemptCounter := attemptCounter s2 + 1\<rparr>)))"

text \<open>
  The inner loop of \<open>run\<close> (lines 114-165), from \<open>currentNumber\<close> with \<open>consecutiveSkips\<close>
  skips so far. The loop has no bound of its own: it runs until the skips reach
  \<open>maxConsecutiveSkips\<close>. The first argument bounds the number of passes; the result is
  \<^term>\<open>None\<close> when the bound is used up before the loop ends or a pass does not return,
  and otherwise the \<open>currentNumber\<close> and the scraper at the exit of the loop. The delay
  and the progress report that end each pass change nothing of the state.
\<close>

fun year_segment ::
  "nat \<Rightarrow> env \<Rightarrow> settings \<Rightarrow> int \<Rightarrow> int \<Rightarrow> nat \<Rightarrow> scraper \<Rightarrow> (int \<times> scraper) option" where
  "year_segment 0 e cfg currentYear currentNumber consecutiveSkips s =
     (if int consecutiveSkips < maxConsecutiveSkips cfg then None
      else Some (currentNumber, s))"
| "year_segment (Suc fuel) e cfg currentYear currentNumber consecutiveSkips s =
     (if int consecutiveSkips < maxConsecutiveSkips cfg then
        (case attempt e currentNumber currentYear consecutiveSkips s of
           None \<Rightarrow> None
         | Some (consecutiveSkips', s') \<Rightarrow>
             year_segment fuel e cfg currentYear (currentNumber + 1) consecutiveSkips' s')
      else Some (currentNumber, s))"

text \<open>
  The body of the outer loop for one year (lines 109-174): the inner loop from no skips,
  the flush, the next year, and the number 1. It returns the new \<open>currentYear\<close> and
  \<open>currentNumber\<close> with the scraper.
\<close>

definition year_step ::
  "nat \<Rightarrow> env \<Rightarrow> settings \<Rightarrow> int \<Rightarrow> int \<Rightarrow> scraper \<Rightarrow> (int \<times> int \<times> scraper) option" where
  "year_step fuel e cfg currentYear currentNumber s =
     (case year_segment fuel e cfg currentYear currentNumber 0 s of
        None \<Rightarrow> None
      | Some (number', s') \<Rightarrow>
          (case flushBatch e s' of
             None \<Rightarrow> None
           | Some s'' \<Rightarrow> Some (currentYear + 1, 1, s'')))"

text \<open>
  The outer loop (lines 108-178) with the final flush. Every year gets the same bound
  \<open>fuel\<close> for its inner loop.
\<close>

function run_years ::
  "nat \<Rightarrow> env \<Rightarrow> settings \<Rightarrow> int \<Rightarrow> int \<Rightarrow> scraper \<Rightarrow> scraper option" where
  "run_years fuel e cfg currentYear currentNumber s =
     (if currentYear \<le> maxYear cfg then
        (case year_step fuel e cfg currentYear currentNumber s of
           None \<Rightarrow> None
         | Some (year', number', s') \<Rightarrow> run_years fuel e cfg year' number' s')
      else flushBatch e s)"
  by pat_completeness auto
termination
  by (relation "measure (\<lambda>(fuel, e, cfg, currentYear, currentNumber, s).
                  nat (maxYear cfg + 1 - currentYear))")
     (auto simp: year_step_def split: option.splits)

text \<open>\<open>run()\<close>, from the scraper as constructed.\<close>

definition run :: "nat \<Rightarrow> env \<Rightarrow> settings \<Rightarrow> scraper \<Rightarrow> scraper option" where
  "run fuel e cfg s = run_years fuel e cfg (startYear cfg) (startNumber cfg) s"

section \<open>Notions used to state the properties\<close>

text \<open>
  The separator of a case title as \<open>extractCountry\<close> reads it: \<open>v.\<close> followed by a
  white-space character. \<open>separator_here s\<close> says that \<open>s\<close> starts with it,
  \<open>separator_occurs s\<close> that it starts at some position of \<open>s\<close>.
\<close>

definition separator_here :: "string \<Rightarrow> bool" where
  "separator_here s =
     (case s of
        a # b # c # _ \<Rightarrow> a = CHR ''v'' \<and> b = CHR ''.'' \<and> is_space c
      | _ \<Rightarrow> False)"

fun separator_occurs :: "string \<Rightarrow> bool" where
  "separator_occurs [] = False"
| "separator_occurs (c # cs) = (separator_here (c # cs) \<or> separator_occurs cs)"

text \<open>The run statistics add up: every attempt checked is found, not found or an error.\<close>

definition stats_balanced :: "scraper \<Rightarrow> bool" where
  "stats_balanced s =
     (found (stats s) + notFound (stats s) + errors (stats s) = totalChecked (stats s))"

text \<open>The fetch returned a record.\<close>

fun is_found :: "error + case_record option \<Rightarrow> bool" where
  "is_found (Inr (Some data)) = True"
| "is_found (Inr None) = False"
| "is_found (Inl err) = False"

text \<open>The rows of the applications table with a given application number.\<close>

definition rows_of :: "database \<Rightarrow> string \<Rightarrow> application_row list" where
  "rows_of d number = filter (\<lambda>r. application_number r = number) (applications d)"

text \<open>The application numbers whose skip flag is set.\<close>

definition skipped :: "database \<Rightarrow> string set" where
  "skipped d = set (map application_number (filter skip_scraping (applications d)))"

text \<open>
  The row \<open>r\<close> carries, in every column derived from the page, the value derived from the
  fetched record \<open>data\<close>.
\<close>

definition fetched_values :: "case_record \<Rightarrow> application_row \<Rightarrow> bool" where
  "fetched_values data r =
     (application_title r = template (escapeSQL (applicationTitle data)) \<and>
      country r =
        (case extractCountry (applicationTitle data) of
           Inr ctry \<Rightarrow> literal_or_NULL ctry
         | Inl err \<Rightarrow> None) \<and>
      date_introduction r = template (convertDate (dateIntroduction data)) \<and>
      representative_name r = literal_or_NULL (representant data) \<and>
      last_major_event r = literal_or_NULL (lastMajorEvent data) \<and>
      last_major_event_date r = literal_or_NULL (convertDate (lastMajorEventDate data)) \<and>
      is_closed r = isCaseClosed (lastMajorEvent data))"

text \<open>The events of the application with the key \<open>n\<close>, in table order.\<close>

definition events_of :: "database \<Rightarrow> nat \<Rightarrow> event_row list" where
  "events_of d n = filter (\<lambda>ev. application_id ev = Some n) (events d)"

text \<open>No application number loses its skip flag between the adapters \<open>a\<close> and \<open>a'\<close>.\<close>

definition keeps_skipped :: "d1_adapter \<Rightarrow> d1_adapter \<Rightarrow> bool" where
  "keeps_skipped a a' = (skipped (db a) \<subseteq> skipped (db a'))"

text \<open>The adapters \<open>a\<close> and \<open>a'\<close> agree on whether the Import API is available.\<close>

definition same_api :: "d1_adapter \<Rightarrow> d1_adapter \<Rightarrow> bool" where
  "same_api a a' = (importAPI a' = importAPI a)"

text \<open>
  The fetched event sequence as rows of the application with the key \<open>n\<close>: one row per
  fetched event, in the fetched order, with the last-event flag on the final one only.
\<close>

definition fetched_events :: "nat \<Rightarrow> major_event list \<Rightarrow> event_row list" where
  "fetched_events n evs =
     map (\<lambda>(i, ev).
            \<lparr>application_id = Some n,
             event_date = template (convertDate (eventDate ev)),
             event_description = template (escapeSQL (description ev)),
             is_last_event = (Suc i = length evs)\<rparr>)
         (enumerate 0 evs)"

text \<open>
  The database after the events command of \<open>saveApplication\<close> has run in full: the events
  of the application \<open>appId\<close> deleted, the fetched ones inserted.
\<close>

definition events_replaced :: "nat \<Rightarrow> major_event list \<Rightarrow> database \<Rightarrow> database" where
  "events_replaced appId evs d =
     (delete_events (AppId appId) d)\<lparr>events :=
        events (delete_events (AppId appId) d) @
        map (inserted_event (delete_events (AppId appId) d)) (eventValues (AppId appId) evs)\<rparr>"

text \<open>
  The database after the event statements of one record of the batch script: the events
  of the application with that number deleted, the fetched ones (if any) inserted.
\<close>

definition batch_events_replaced :: "case_record \<Rightarrow> database \<Rightarrow> database" where
  "batch_events_replaced data d =
     (let ref = AppByNumber (template (applicationNumber data));
          dd = delete_events ref d in
      if majorEventsList data = [] then dd
      else dd\<lparr>events := events dd @
             map (inserted_event dd) (eventValues ref (majorEventsList data))\<rparr>)"

text \<open>The records of a batch for which statements are built: those with a title.\<close>

definition has_title :: "case_record \<Rightarrow> bool" where
  "has_title data = (applicationTitle data \<noteq> None)"

text \<open>The country that the statements of a record with a title carry.\<close>

definition country_of :: "case_record \<Rightarrow> string option" where
  "country_of data =
     (case extractCountry (applicationTitle data) of Inr ctry \<Rightarrow> ctry | Inl err \<Rightarrow> None)"

text \<open>Every row of the applications table has a key of its own.\<close>

definition distinct_ids :: "database \<Rightarrow> bool" where
  "distinct_ids d = distinct (map app_id (applications d))"

text \<open>
  A fetched record whose texts are plain for the shell: no text of the record has a
  dollar sign, a backquote, a backslash or the character with code 0.
\<close>

definition plain_text :: "string option \<Rightarrow> bool" where
  "plain_text x = (case x of None \<Rightarrow> True | Some s \<Rightarrow> shell_plain s)"

definition plain_record :: "case_record \<Rightarrow> bool" where
  "plain_record data =
     (plain_text (applicationNumber data) \<and> plain_text (applicationTitle data) \<and>
      plain_text (dateIntroduction data) \<and> plain_text (representant data) \<and>
      plain_text (lastMajorEvent data) \<and> plain_text (lastMajorEventDate data) \<and>
      list_all (\<lambda>ev. plain_text (description ev) \<and> plain_text (eventDate ev))
        (majorEventsList data))"

text \<open>
  The representative reference that a save of the record \<open>data\<close> leaves in the row of the
  case. For a single save on the adapter \<open>a\<close>, read from the cache of \<open>a\<close> and from the
  database \<open>d'\<close> after the save: the cached id of the name or, without one, the id of the
  name in the representatives table, and \<open>NULL\<close> for the id 0 (\<open>representativeId || 'NULL'\<close>).
  For a save through the batch script: the id of the name in the representatives table.
  In both, \<open>NULL\<close> for a blank name.
\<close>

definition nonzero :: "nat \<Rightarrow> nat option" where
  "nonzero n = (if n = 0 then None else Some n)"

definition saved_representative :: "case_record \<Rightarrow> d1_adapter \<Rightarrow> database \<Rightarrow> nat option" where
  "saved_representative data a d' =
     (case representant data of
        None \<Rightarrow> None
      | Some name \<Rightarrow>
          if nonblank (Some name)
          then (case repCache a name of
                  Some cachedId \<Rightarrow> nonzero cachedId
                | None \<Rightarrow> Option.bind (lookup_representative_id d' name) nonzero)
          else None)"

definition batch_representative :: "case_record \<Rightarrow> database \<Rightarrow> nat option" where
  "batch_representative data d' =
     (case representant data of
        None \<Rightarrow> None
      | Some name \<Rightarrow> if nonblank (Some name) then lookup_representative_id d' name else None)"

section \<open>Concrete inputs\<close>

text \<open>
  A fetched record with two events, one with none, a database that already holds the
  case \<open>5/19\<close> with one event, and an adapter on it with the Import API available.
\<close>

definition sample_record :: case_record where
  "sample_record =
     \<lparr>applicationNumber = Some ''5/19'',
      applicationTitle = Some ''Ivanov v. Russia'',
      dateIntroduction = Some ''02/01/2019'',
      representant = None,
      lastMajorEvent = Some ''Communicated'',
      lastMajorEventDate = Some ''04/03/2019'',
      majorEventsList =
        [\<lparr>description = Some ''Application lodged'', eventDate = Some ''02/01/2019''\<rparr>,
         \<lparr>description = Some ''Communicated'', eventDate = Some ''04/03/2019''\<rparr>]\<rparr>"

definition sample_record_no_events :: case_record where
  "sample_record_no_events =
     sample_record\<lparr>lastMajorEvent := None, lastMajorEventDate := None, majorEventsList := []\<rparr>"

definition sample_row :: application_row where
  "sample_row =
     \<lparr>app_id = 1,
      application_number = ''5/19'',
      application_title = ''Ivanov v. Russia'',
      country = Some ''Russia'',
      date_introduction = ''2019-01-02'',
      representative_id = None,
      representative_name = None,
      last_major_event = Some ''Application lodged'',
      last_major_event_date = Some ''2019-01-02'',
      is_closed = False,
      not_found_count = 0,
      skip_scraping = False\<rparr>"

definition sample_event :: event_row where
  "sample_event =
     \<lparr>application_id = Some 1, event_date = ''2019-01-02'',
      event_description = ''Application lodged'', is_last_event = True\<rparr>"

definition sample_database :: database where
  "sample_database =
     \<lparr>applications = [sample_row], events = [sample_event], representatives = []\<rparr>"

definition sample_adapter :: d1_adapter where
  "sample_adapter =
     \<lparr>db = sample_database, calls = 0, repCache = (\<lambda>name. None), cacheCounter = 0,
      importAPI = True\<rparr>"

text \<open>
  An environment around a given site: no call to the database fails in transport, the
  shell fails on every command that is not plain, the first poll about every import
  answers \<open>success\<close>, a failing command is rolled back or not as said, and both column
  defaults are 0.
\<close>

definition sample_env :: "(int \<Rightarrow> int \<Rightarrow> error + case_record option) \<Rightarrow> bool \<Rightarrow> env" where
  "sample_env site atomic =
     \<lparr>scrapeECHRApplication = site, transport_fails = (\<lambda>k. False),
      expanded = (\<lambda>sql. None), poll = (\<lambda>k i. PollSuccess), atomic_commands = atomic,
      default_not_found_count = 0, default_skip_scraping = False\<rparr>"

text \<open>The same with every call to the database failing in transport.\<close>

definition offline_env :: "(int \<Rightarrow> int \<Rightarrow> error + case_record option) \<Rightarrow> env" where
  "offline_env site = (sample_env site True)\<lparr>transport_fails := (\<lambda>k. True)\<rparr>"

text \<open>Sites: one that serves nothing, one whose fetch always fails, and two small ones.\<close>

definition site_empty :: "int \<Rightarrow> int \<Rightarrow> error + case_record option" where
  "site_empty number year = Inr None"

definition site_down :: "int \<Rightarrow> int \<Rightarrow> error + case_record option" where
  "site_down number year = Inl FetchError"

definition site_one_case :: "int \<Rightarrow> int \<Rightarrow> int \<Rightarrow> error + case_record option" where
  "site_one_case first number year =
     (if number = first then Inr (Some sample_record) else Inr None)"

definition site_mixed :: "int \<Rightarrow> int \<Rightarrow> error + case_record option" where
  "site_mixed number year =
     (if number = 1 then Inr (Some sample_record)
      else if number = 2 then Inl FetchError
      else Inr None)"

text \<open>
  The environment of the site that serves the record \<open>1\<close> only, with imports that fail:
  every poll is answered without success, with the error of the import.
\<close>

definition failed_import_env :: env where
  "failed_import_env = (sample_env (site_one_case 1) True)\<lparr>poll := (\<lambda>k i. PollOtherError)\<rparr>"

text \<open>Settings for a short run: one year, two consecutive skips end it.\<close>

definition small_settings :: settings where
  "small_settings = \<lparr>startYear = 19, maxYear = 19, maxConsecutiveSkips = 2, startNumber = 1\<rparr>"


text \<open>The sample adapter with the case \<open>5/19\<close> already marked not found 59 times.\<close>

definition adapter_at_59 :: d1_adapter where
  "adapter_at_59 =
     sample_adapter\<lparr>db := sample_database\<lparr>applications :=
       [sample_row\<lparr>not_found_count := 59\<rparr>]\<rparr>\<rparr>"

text \<open>
  A fetched record of the case \<open>5/19\<close> whose last major event names an amount in dollars,
  and an environment whose shell is the one \<open>execSync\<close> starts: \<open>sh -c command\<close> has no
  positional parameters, so \<open>$1\<close> to \<open>$9\<close> expand to nothing. (\<open>without_positional\<close> is
  what that shell makes of a text whose only special characters are dollar signs before
  such a digit.)
\<close>

definition dollar_record :: case_record where
  "dollar_record = sample_record\<lparr>lastMajorEvent := Some ''Just satisfaction: $5000''\<rparr>"

fun without_positional :: "string \<Rightarrow> string" where
  "without_positional (a # b # cs) =
     (if a = CHR ''$'' \<and> b \<in> set ''123456789'' then without_positional cs
      else a # without_positional (b # cs))"
| "without_positional cs = cs"

fun map_application_ref :: "(string \<Rightarrow> string) \<Rightarrow> application_ref \<Rightarrow> application_ref" where
  "map_application_ref f (AppId n) = AppId n"
| "map_application_ref f (AppByNumber number) = AppByNumber (f number)"

fun map_representative_ref :: "(string \<Rightarrow> string) \<Rightarrow> representative_ref \<Rightarrow> representative_ref" where
  "map_representative_ref f RepNull = RepNull"
| "map_representative_ref f (RepId n) = RepId n"
| "map_representative_ref f (RepByName name) = RepByName (f name)"

definition map_application_values ::
  "(string \<Rightarrow> string) \<Rightarrow> application_values \<Rightarrow> application_values" where
  "map_application_values f v =
     v\<lparr>v_application_number := f (v_application_number v),
       v_application_title := f (v_application_title v),
       v_country := map_option f (v_country v),
       v_date_introduction := f (v_date_introduction v),
       v_representative := map_representative_ref f (v_representative v),
       v_representative_name := map_option f (v_representative_name v),
       v_last_major_event := map_option f (v_last_major_event v),
       v_last_major_event_date := map_option f (v_last_major_event_date v)\<rparr>"

definition map_event_values :: "(string \<Rightarrow> string) \<Rightarrow> event_values \<Rightarrow> event_values" where
  "map_event_values f v =
     v\<lparr>ev_application := map_application_ref f (ev_application v),
       ev_event_date := f (ev_event_date v),
       ev_description := f (ev_description v)\<rparr>"

fun map_statement :: "(string \<Rightarrow> string) \<Rightarrow> statement \<Rightarrow> statement" where
  "map_statement f (SelectRepresentativeId name) = SelectRepresentativeId (f name)"
| "map_statement f (InsertOrIgnoreRepresentatives names) = InsertOrIgnoreRepresentatives (map f names)"
| "map_statement f (InsertApplicationOnConflictUpdate v) =
     InsertApplicationOnConflictUpdate (map_application_values f v)"
| "map_statement f (SelectApplicationId number) = SelectApplicationId (f number)"
| "map_statement f (DeleteEvents ref) = DeleteEvents (map_application_ref f ref)"
| "map_statement f (InsertEvents rows) = InsertEvents (map (map_event_values f) rows)"
| "map_statement f (UpdateNotFound number) = UpdateNotFound (f number)"

definition dollar_env :: env where
  "dollar_env =
     (sample_env site_empty True)
       \<lparr>expanded := (\<lambda>sql. Some (map (map_statement without_positional) sql))\<rparr>"

section \<open>Properties of the normalizer\<close>

subsection \<open>Splitting and the canonical date pattern\<close>

lemma split_no_sep: "sep \<notin> set d \<Longrightarrow> split sep d = [d]"
  by (induction d) auto

lemma split_append: "sep \<notin> set d \<Longrightarrow> split sep (d @ sep # r) = d # split sep r"
  by (induction d) auto

lemma split_not_Nil: "split sep s \<noteq> []"
  by (induction s) (auto split: list.splits)

lemma length_split: "length (split sep s) = Suc (length (filter (\<lambda>c. c = sep) s))"
  by (induction s) (auto split: list.splits simp: split_not_Nil)

lemma iso_date_has_no_slash:
  assumes "matches_iso_date s"
  shows "CHR ''/'' \<notin> set s"
proof
  assume "CHR ''/'' \<in> set s"
  then obtain i where i: "i < length s" "s ! i = CHR ''/''"
    by (auto simp: in_set_conv_nth)
  have len: "length s = 10"
    using assms by (simp add: matches_iso_date_def)
  have d: "i < 4 \<Longrightarrow> is_digit (s ! i)" "5 \<le> i \<Longrightarrow> i < 7 \<Longrightarrow> is_digit (s ! i)"
    "8 \<le> i \<Longrightarrow> is_digit (s ! i)"
    using assms i(1) len
    by (auto simp: matches_iso_date_def list_all_length dest: spec[of _ "i - 5"] spec[of _ "i - 8"])
  have "i = 4 \<or> i = 7 \<or> i < 4 \<or> (5 \<le> i \<and> i < 7) \<or> 8 \<le> i"
    by arith
  then show False
    using d i(2) assms by (auto simp: matches_iso_date_def is_digit_def)
qed

lemma convertDate_iso: "matches_iso_date s \<Longrightarrow> convertDate (Some s) = Some s"
  by (auto simp: convertDate_def matches_iso_date_def)

lemma convertDate_few_parts:
  assumes "\<not> matches_iso_date s" "length (filter (\<lambda>c. c = CHR ''/'') s) < 2"
  shows "convertDate (Some s) = None"
proof -
  have "length (split (CHR ''/'') s) < 3"
    using assms(2) by (simp add: length_split)
  then have "(case split (CHR ''/'') s of
                day # month # year # _ \<Rightarrow>
                  if day = [] \<or> month = [] \<or> year = [] then None
                  else Some (year @ ''-'' @ padStart2 month @ ''-'' @ padStart2 day)
              | _ \<Rightarrow> None) = None"
    by (auto split: list.splits)
  then show ?thesis
    using assms(1) by (simp add: convertDate_def)
qed

lemma convertDate_three_parts:
  assumes "CHR ''/'' \<notin> set d" "CHR ''/'' \<notin> set m" "CHR ''/'' \<notin> set y"
    and "tail = [] \<or> (\<exists>t. tail = CHR ''/'' # t)"
  shows "convertDate (Some (d @ ''/'' @ m @ ''/'' @ y @ tail)) =
     (if d = [] \<or> m = [] \<or> y = [] then None
      else Some (y @ ''-'' @ padStart2 m @ ''-'' @ padStart2 d))"
proof -
  let ?s = "d @ ''/'' @ m @ ''/'' @ y @ tail"
  have niso: "\<not> matches_iso_date ?s"
    using iso_date_has_no_slash[of ?s] by auto
  have "\<exists>ps. split (CHR ''/'') (y @ tail) = y # ps"
    using assms(3,4) by (auto simp: split_no_sep split_append)
  then obtain ps where "split (CHR ''/'') (y @ tail) = y # ps"
    by blast
  then have sp: "split (CHR ''/'') ?s = d # m # y # ps"
    using assms(1,2) by (simp add: split_append)
  show ?thesis
    using niso sp by (simp add: convertDate_def)
qed

text \<open>
  C8, as amended. \<open>convertDate\<close> returns \<open>null\<close> for a missing or empty input; it returns a
  string of the form \<open>dddd-dd-dd\<close> unchanged; it returns \<open>null\<close> for any other string with
  fewer than two slashes; and for any other string, read as \<open>day/month/year\<close> followed by
  nothing or by a further slash and anything, it returns \<open>null\<close> when one of the three
  parts is empty and otherwise \<open>year-month-day\<close> with month and day padded on the left
  with \<open>0\<close> to two characters. The parts need not be digits, and what follows a third
  slash is ignored.
\<close>

theorem convertDate_shapes:
  "convertDate None = None \<and> convertDate (Some []) = None \<and>
   (\<forall>s. matches_iso_date s \<longrightarrow> convertDate (Some s) = Some s) \<and>
   (\<forall>s. \<not> matches_iso_date s \<longrightarrow> length (filter (\<lambda>c. c = CHR ''/'') s) < 2 \<longrightarrow>
        convertDate (Some s) = None) \<and>
   (\<forall>d m y tail.
        CHR ''/'' \<notin> set d \<longrightarrow> CHR ''/'' \<notin> set m \<longrightarrow> CHR ''/'' \<notin> set y \<longrightarrow>
        (tail = [] \<or> (\<exists>t. tail = CHR ''/'' # t)) \<longrightarrow>
        convertDate (Some (d @ ''/'' @ m @ ''/'' @ y @ tail)) =
          (if d = [] \<or> m = [] \<or> y = [] then None
           else Some (y @ ''-'' @ padStart2 m @ ''-'' @ padStart2 d)))"
proof (intro conjI allI impI)
  show "convertDate None = None"
    by (simp add: convertDate_def)
  show "convertDate (Some []) = None"
    by (simp add: convertDate_def)
next
  fix s assume "matches_iso_date s"
  then show "convertDate (Some s) = Some s"
    by (rule convertDate_iso)
next
  fix s assume "\<not> matches_iso_date s" "length (filter (\<lambda>c. c = CHR ''/'') s) < 2"
  then show "convertDate (Some s) = None"
    by (rule convertDate_few_parts)
next
  fix d m y tail :: string
  assume "CHR ''/'' \<notin> set d" "CHR ''/'' \<notin> set m" "CHR ''/'' \<notin> set y"
    "tail = [] \<or> (\<exists>t. tail = CHR ''/'' # t)"
  then show "convertDate (Some (d @ ''/'' @ m @ ''/'' @ y @ tail)) =
          (if d = [] \<or> m = [] \<or> y = [] then None
           else Some (y @ ''-'' @ padStart2 m @ ''-'' @ padStart2 d))"
    by (rule convertDate_three_parts)
qed

text \<open>
  The three examples of the specification, obtained from the theorem:
  \<open>"2020-03-05"\<close> is canonical, \<open>"not-a-date"\<close> has no slash, and \<open>"05/03/2020"\<close> has three
  parts.
\<close>

theorem convertDate_shapes_witness:
  "matches_iso_date ''2020-03-05'' \<and>
   convertDate (Some ''2020-03-05'') = Some ''2020-03-05'' \<and>
   \<not> matches_iso_date ''not-a-date'' \<and>
   length (filter (\<lambda>c. c = CHR ''/'') ''not-a-date'') < 2 \<and>
   convertDate (Some ''not-a-date'') = None \<and>
   convertDate (Some ''05/03/2020'') = Some ''2020-03-05''"
proof -
  have iso: "matches_iso_date ''2020-03-05''"
    by (simp add: matches_iso_date_def is_digit_def)
  have niso: "\<not> matches_iso_date ''not-a-date''"
    by (simp add: matches_iso_date_def is_digit_def)
  have few: "length (filter (\<lambda>c. c = CHR ''/'') ''not-a-date'') < 2"
    by simp
  have a: "convertDate (Some ''2020-03-05'') = Some ''2020-03-05''"
    using convertDate_shapes iso by blast
  have b: "convertDate (Some ''not-a-date'') = None"
    using convertDate_shapes niso few by blast
  have "convertDate (Some (''05'' @ ''/'' @ ''03'' @ ''/'' @ ''2020'' @ [])) =
          (if ''05'' = [] \<or> ''03'' = [] \<or> ''2020'' = [] then None
           else Some (''2020'' @ ''-'' @ padStart2 ''03'' @ ''-'' @ padStart2 ''05''))"
    using convertDate_shapes by (elim conjE allE[of _ "''05''"] allE[of _ "''03''"] allE[of _ "''2020''"] allE[of _ "[]"]) simp
  then have c: "convertDate (Some ''05/03/2020'') = Some ''2020-03-05''"
    by (simp add: padStart2_def)
  show ?thesis
    using iso niso few a b c by simp
qed

text \<open>
  C8 as stated fails: \<open>"a/b/c/d"\<close> is neither canonical nor a day, a month and a year
  separated by slashes (it has four parts, none a number), and the result is not \<open>null\<close>.
\<close>

theorem convertDate_other_shape_counterexample:
  "\<not> matches_iso_date ''a/b/c/d'' \<and> length (split (CHR ''/'') ''a/b/c/d'') = 4 \<and>
   convertDate (Some ''a/b/c/d'') = Some ''c-0b-0a''"
  by (simp add: convertDate_def matches_iso_date_def padStart2_def)

subsection \<open>The country of a title\<close>

lemma trim_space_Cons: "is_space c \<Longrightarrow> trim (c # cs) = trim cs"
  by (simp add: trim_def)

lemma spaces_then_group_trim:
  "is_space c \<Longrightarrow> cs \<noteq> [] \<Longrightarrow> list_all (\<lambda>c. \<not> is_line_terminator c) cs \<Longrightarrow>
     \<exists>g. spaces_then_group (c # cs) = Some g \<and> trim g = trim cs"
proof (induction cs arbitrary: c)
  case Nil
  then show ?case by simp
next
  case (Cons x xs)
  show ?case
  proof (cases "is_space x")
    case False
    then show ?thesis
      using Cons.prems by (simp add: group_to_end_def)
  next
    case True
    show ?thesis
    proof (cases "xs = []")
      case True
      then show ?thesis
        using Cons.prems \<open>is_space x\<close> by (simp add: group_to_end_def)
    next
      case False
      then obtain g where "spaces_then_group (x # xs) = Some g" "trim g = trim xs"
        using Cons.IH[of x] Cons.prems True by auto
      then show ?thesis
        using Cons.prems True by (simp add: trim_space_Cons)
    qed
  qed
qed

lemma match_here_None: "\<not> separator_here s \<Longrightarrow> match_here s = None"
  by (cases s rule: match_here.cases) (auto simp: separator_here_def split: list.splits)

lemma match_title_None: "\<not> separator_occurs t \<Longrightarrow> match_title t = None"
  by (induction t) (auto simp: match_here_None)

lemma separator_here_append:
  "\<not> separator_occurs (p # ps) \<Longrightarrow> \<not> separator_here ((p # ps) @ CHR ''v'' # r)"
  by (cases ps; cases "tl ps")
     (auto simp: separator_here_def is_space_def split: list.splits)

lemma match_title_first:
  assumes "\<not> separator_occurs pre" "spaces_then_group r = Some g"
  shows "match_title (pre @ CHR ''v'' # CHR ''.'' # r) = Some g"
  using assms
proof (induction pre)
  case Nil
  then show ?case by simp
next
  case (Cons p ps)
  have "match_here ((p # ps) @ CHR ''v'' # CHR ''.'' # r) = None"
    using separator_here_append[OF Cons.prems(1)] by (rule match_here_None)
  then show ?case
    using Cons by simp
qed

lemma extractCountry_first:
  assumes "\<not> separator_occurs pre" "is_space c" "rest \<noteq> []"
    "list_all (\<lambda>c. \<not> is_line_terminator c) rest"
  shows "extractCountry (Some (pre @ ''v.'' @ c # rest)) = Inr (Some (trim rest))"
proof -
  obtain g where g: "spaces_then_group (c # rest) = Some g" "trim g = trim rest"
    using spaces_then_group_trim[of c rest] assms(2,3,4) by auto
  have "match_title (pre @ CHR ''v'' # CHR ''.'' # c # rest) = Some g"
    using match_title_first[OF assms(1) g(1)] .
  then show ?thesis
    using g(2) by (simp add: extractCountry_def)
qed

lemma spaces_then_group_rest:
  assumes "list_all is_space ws" "ws \<noteq> []" "rest \<noteq> []" "\<not> is_space (hd rest)"
  shows "spaces_then_group (ws @ rest) = group_to_end rest"
  using assms
proof (induction ws)
  case Nil
  then show ?case by simp
next
  case (Cons w ws)
  have r: "spaces_then_group rest = None"
    using Cons.prems(3,4) by (cases rest) simp_all
  show ?case
  proof (cases "ws = []")
    case True
    then show ?thesis using Cons.prems r by simp
  next
    case False
    then have ih: "spaces_then_group (ws @ rest) = group_to_end rest"
      using Cons by simp
    have "group_to_end rest = None \<Longrightarrow> group_to_end (ws @ rest) = None"
      using Cons.prems(3) by (auto simp: group_to_end_def split: if_splits)
    then show ?thesis
      using Cons.prems(1) ih by (simp split: option.splits)
  qed
qed

lemma spaces_then_group_spaces:
  assumes "list_all is_space ws" "ws \<noteq> []"
  shows "spaces_then_group ws =
     (if 2 \<le> length ws \<and> \<not> is_line_terminator (last ws) then Some [last ws] else None)"
  using assms
proof (induction ws)
  case Nil
  then show ?case by simp
next
  case (Cons w ws)
  show ?case
  proof (cases "ws = []")
    case True
    then show ?thesis using Cons.prems by (simp add: group_to_end_def)
  next
    case False
    note ne = this
    then have ih: "spaces_then_group ws =
       (if 2 \<le> length ws \<and> \<not> is_line_terminator (last ws) then Some [last ws] else None)"
      using Cons by simp
    show ?thesis
    proof (cases "is_line_terminator (last ws)")
      case True
      then have "group_to_end ws = None"
        using ne by (auto simp: group_to_end_def list_all_iff)
      then show ?thesis using Cons.prems(1) ih True ne by simp
    next
      case False
      show ?thesis
      proof (cases "2 \<le> length ws")
        case True
        then show ?thesis using Cons.prems(1) ih False ne by simp
      next
        case short: False
        then obtain x where "ws = [x]"
          using ne by (cases ws) (auto simp: Suc_le_eq)
        then show ?thesis using Cons.prems(1) ih False by (simp add: group_to_end_def)
      qed
    qed
  qed
qed

lemma match_title_spaces:
  "list_all is_space ws \<Longrightarrow> match_title (ws @ rest) = match_title rest"
proof (induction ws)
  case Nil
  then show ?case by simp
next
  case (Cons w ws)
  have "w \<noteq> CHR ''v''"
    using Cons.prems by (auto simp: is_space_def)
  then have "match_here (w # ws @ rest) = None"
    by (cases "ws @ rest") simp_all
  then show ?case using Cons by simp
qed

lemma match_title_at_first:
  assumes "\<not> separator_occurs pre"
  shows "match_title (pre @ CHR ''v'' # CHR ''.'' # r) =
     (case spaces_then_group r of Some g \<Rightarrow> Some g | None \<Rightarrow> match_title r)"
  using assms
proof (induction pre)
  case Nil
  have "match_here (CHR ''.'' # r) = None"
    by (cases r) simp_all
  then show ?case by (simp split: option.splits)
next
  case (Cons p ps)
  have "match_here ((p # ps) @ CHR ''v'' # CHR ''.'' # r) = None"
    using separator_here_append[OF Cons.prems(1)] by (rule match_here_None)
  then show ?case
    using Cons by simp
qed

lemma extractCountry_at_first:
  assumes "\<not> separator_occurs pre" "ws \<noteq> []" "list_all is_space ws"
    "rest = [] \<or> \<not> is_space (hd rest)"
  shows "extractCountry (Some (pre @ ''v.'' @ ws @ rest)) =
     (if rest \<noteq> [] then
        (if list_all (\<lambda>c. \<not> is_line_terminator c) rest then Inr (Some (trim rest))
         else extractCountry (Some rest))
      else if 2 \<le> length ws \<and> \<not> is_line_terminator (last ws) then Inr (Some [])
      else Inr None)"
proof (cases "rest = []")
  case True
  have t: "trim [last ws] = []"
    using assms(2,3) by (simp add: trim_def list_all_iff)
  have "match_title ws = None"
    using match_title_spaces[OF assms(3), of "[]"] by simp
  then show ?thesis
    using True match_title_at_first[OF assms(1), of ws] spaces_then_group_spaces[OF assms(3,2)] t
    by (simp add: extractCountry_def)
next
  case False
  then have h: "\<not> is_space (hd rest)" using assms(4) by simp
  have g: "spaces_then_group (ws @ rest) = group_to_end rest"
    using spaces_then_group_rest[OF assms(3,2) False h] .
  have m: "match_title (ws @ rest) = match_title rest"
    using assms(3) by (rule match_title_spaces)
  show ?thesis
    using False match_title_at_first[OF assms(1), of "ws @ rest"] g m
    by (simp add: extractCountry_def group_to_end_def)
qed

lemma separator_here_prefix:
  "\<not> separator_here (c # cs) \<Longrightarrow> cs = pre @ CHR ''v'' # CHR ''.'' # r \<Longrightarrow> \<not> separator_here (c # pre)"
  by (cases pre; cases "tl pre") (auto simp: separator_here_def is_space_def split: list.splits)

lemma first_separator:
  "separator_occurs t \<Longrightarrow>
   \<exists>pre ws rest. t = pre @ ''v.'' @ ws @ rest \<and> \<not> separator_occurs pre \<and> ws \<noteq> [] \<and>
      list_all is_space ws \<and> (rest = [] \<or> \<not> is_space (hd rest))"
proof (induction t)
  case Nil
  then show ?case by simp
next
  case (Cons c cs)
  show ?case
  proof (cases "separator_here (c # cs)")
    case True
    then obtain s tl where t: "c # cs = CHR ''v'' # CHR ''.'' # s # tl" and s: "is_space s"
      by (auto simp: separator_here_def split: list.splits)
    let ?ws = "takeWhile is_space (s # tl)" and ?rest = "dropWhile is_space (s # tl)"
    have "c # cs = [] @ ''v.'' @ ?ws @ ?rest"
      using t by simp
    moreover have "?ws \<noteq> []" using s by simp
    moreover have "list_all is_space ?ws"
      by (auto simp: list_all_iff dest: set_takeWhileD)
    moreover have "?rest = [] \<or> \<not> is_space (hd ?rest)"
      using hd_dropWhile[of is_space "s # tl"] by blast
    ultimately show ?thesis
      by (metis separator_occurs.simps(1))
  next
    case False
    then have "separator_occurs cs" using Cons.prems by simp
    then obtain pre ws rest where d: "cs = pre @ ''v.'' @ ws @ rest" "\<not> separator_occurs pre"
      "ws \<noteq> []" "list_all is_space ws" "rest = [] \<or> \<not> is_space (hd rest)"
      using Cons.IH by blast
    have "\<not> separator_here (c # pre)"
      using False d(1) by (intro separator_here_prefix[of c cs pre "ws @ rest"]) simp_all
    then have "\<not> separator_occurs (c # pre)" using d(2) by simp
    moreover have "c # cs = (c # pre) @ ''v.'' @ ws @ rest" using d(1) by simp
    ultimately show ?thesis using d(3,4,5) by blast
  qed
qed

text \<open>
  C9, as amended. \<open>extractCountry\<close> cuts the title at the first separator, not the last:
  when no separator occurs in \<open>pre\<close> and \<open>c\<close> is a white-space character (a space, a
  tab, a line break, a no-break space, \<dots>), the title \<open>pre @ "v." @ c # rest\<close> gives the
  whole of \<open>rest\<close>, trimmed, whatever \<open>rest\<close> contains (it may contain further
  separators), as long as \<open>rest\<close> is not empty and has no line terminator. A title in
  which no \<open>v.\<close> is followed by a white-space character gives \<open>null\<close>. The remaining
  conjuncts decide the titles that are left. Every title with a separator reads as \<open>pre\<close>
  without a separator, then \<open>v.\<close>, then the white space \<open>ws\<close> after it, then \<open>rest\<close>,
  which does not start with white space.
  When \<open>rest\<close> is not empty and has no line terminator, the result is the whole of
  \<open>rest\<close>, trimmed, whatever further separators it contains. When \<open>rest\<close> has a line
  terminator, the expression does not match at the first separator and the search goes
  on in \<open>rest\<close>. When nothing follows the white space, the result is the empty string if
  \<open>ws\<close> has two characters or more and does not end with a line terminator, and \<open>null\<close>
  otherwise.
\<close>

theorem extractCountry_first_separator:
  "(\<forall>pre c rest.
      \<not> separator_occurs pre \<longrightarrow> is_space c \<longrightarrow> rest \<noteq> [] \<longrightarrow>
      list_all (\<lambda>c. \<not> is_line_terminator c) rest \<longrightarrow>
      extractCountry (Some (pre @ ''v.'' @ c # rest)) = Inr (Some (trim rest))) \<and>
   (\<forall>t. \<not> separator_occurs t \<longrightarrow> extractCountry (Some t) = Inr None) \<and>
   (\<forall>t. separator_occurs t \<longrightarrow>
      (\<exists>pre ws rest. t = pre @ ''v.'' @ ws @ rest \<and> \<not> separator_occurs pre \<and> ws \<noteq> [] \<and>
         list_all is_space ws \<and> (rest = [] \<or> \<not> is_space (hd rest)))) \<and>
   (\<forall>pre ws rest.
      \<not> separator_occurs pre \<longrightarrow> ws \<noteq> [] \<longrightarrow> list_all is_space ws \<longrightarrow>
      (rest = [] \<or> \<not> is_space (hd rest)) \<longrightarrow>
      extractCountry (Some (pre @ ''v.'' @ ws @ rest)) =
        (if rest \<noteq> [] then
           (if list_all (\<lambda>c. \<not> is_line_terminator c) rest then Inr (Some (trim rest))
            else extractCountry (Some rest))
         else if 2 \<le> length ws \<and> \<not> is_line_terminator (last ws) then Inr (Some [])
         else Inr None))"
proof (intro conjI allI impI)
  fix pre rest :: string and c
  assume "\<not> separator_occurs pre" "is_space c" "rest \<noteq> []"
    "list_all (\<lambda>c. \<not> is_line_terminator c) rest"
  then show "extractCountry (Some (pre @ ''v.'' @ c # rest)) = Inr (Some (trim rest))"
    by (rule extractCountry_first)
next
  fix t assume "\<not> separator_occurs t"
  then show "extractCountry (Some t) = Inr None"
    by (simp add: extractCountry_def match_title_None)
next
  fix t assume "separator_occurs t"
  then show "\<exists>pre ws rest. t = pre @ ''v.'' @ ws @ rest \<and> \<not> separator_occurs pre \<and> ws \<noteq> [] \<and>
         list_all is_space ws \<and> (rest = [] \<or> \<not> is_space (hd rest))"
    by (rule first_separator)
next
  fix pre ws rest :: string
  assume "\<not> separator_occurs pre" "ws \<noteq> []" "list_all is_space ws"
    "rest = [] \<or> \<not> is_space (hd rest)"
  then show "extractCountry (Some (pre @ ''v.'' @ ws @ rest)) =
        (if rest \<noteq> [] then
           (if list_all (\<lambda>c. \<not> is_line_terminator c) rest then Inr (Some (trim rest))
            else extractCountry (Some rest))
         else if 2 \<le> length ws \<and> \<not> is_line_terminator (last ws) then Inr (Some [])
         else Inr None)"
    by (rule extractCountry_at_first)
qed

text \<open>
  The two examples of the specification, obtained from the theorem, and a title whose
  separator ends with a tab.
\<close>

theorem extractCountry_first_separator_witness:
  "\<not> separator_occurs ''Ivanov '' \<and> list_all is_space '' '' \<and> \<not> is_space (hd ''Russia'') \<and>
   list_all (\<lambda>c. \<not> is_line_terminator c) ''Russia'' \<and>
   extractCountry (Some ''Ivanov v. Russia'') = Inr (Some ''Russia'') \<and>
   \<not> separator_occurs ''No separator here'' \<and>
   extractCountry (Some ''No separator here'') = Inr None \<and>
   is_space (CHR 0x09) \<and>
   extractCountry (Some (''Ivanov v.'' @ [CHR 0x09] @ ''Russia'')) = Inr (Some ''Russia'') \<and>
   separator_occurs ''Ivanov v. Russia'' \<and>
   (\<exists>pre ws rest. ''Ivanov v. Russia'' = pre @ ''v.'' @ ws @ rest \<and> \<not> separator_occurs pre \<and>
      ws \<noteq> [] \<and> list_all is_space ws \<and> (rest = [] \<or> \<not> is_space (hd rest)))"
proof -
  note sep = extractCountry_first_separator
  have p: "\<not> separator_occurs ''Ivanov ''"
    by (simp add: separator_here_def)
  have w: "list_all is_space '' ''"
    by (simp add: is_space_def)
  have h: "\<not> is_space (hd ''Russia'')"
    by (simp add: is_space_def)
  have r: "list_all (\<lambda>c. \<not> is_line_terminator c) ''Russia''"
    by (simp add: is_line_terminator_def)
  have n: "\<not> separator_occurs ''No separator here''"
    by (simp add: separator_here_def)
  have o: "separator_occurs ''Ivanov v. Russia''"
    by (simp add: separator_here_def is_space_def)
  have t: "trim ''Russia'' = ''Russia''"
    by (simp add: trim_def is_space_def)
  have third: "\<forall>pre ws rest.
      \<not> separator_occurs pre \<longrightarrow> ws \<noteq> [] \<longrightarrow> list_all is_space ws \<longrightarrow>
      (rest = [] \<or> \<not> is_space (hd rest)) \<longrightarrow>
      extractCountry (Some (pre @ ''v.'' @ ws @ rest)) =
        (if rest \<noteq> [] then
           (if list_all (\<lambda>c. \<not> is_line_terminator c) rest then Inr (Some (trim rest))
            else extractCountry (Some rest))
         else if 2 \<le> length ws \<and> \<not> is_line_terminator (last ws) then Inr (Some [])
         else Inr None)"
    using sep by blast
  have "extractCountry (Some (''Ivanov '' @ ''v.'' @ '' '' @ ''Russia'')) =
      Inr (Some (trim ''Russia''))"
    using third p w h r by (elim allE[of _ "''Ivanov ''"] allE[of _ "'' ''"] allE[of _ "''Russia''"]) simp
  then have a: "extractCountry (Some ''Ivanov v. Russia'') = Inr (Some ''Russia'')"
    by (simp add: t)
  have s9: "is_space (CHR 0x09)"
    by (simp add: is_space_def)
  have "extractCountry (Some (''Ivanov '' @ ''v.'' @ CHR 0x09 # ''Russia'')) =
      Inr (Some (trim ''Russia''))"
    using sep p s9 r by (elim conjE allE[of _ "''Ivanov ''"] allE[of _ "CHR 0x09"] allE[of _ "''Russia''"]) simp
  then have c: "extractCountry (Some (''Ivanov v.'' @ [CHR 0x09] @ ''Russia'')) =
      Inr (Some ''Russia'')"
    by (simp add: t)
  have b: "extractCountry (Some ''No separator here'') = Inr None"
    using sep n by blast
  have d: "\<exists>pre ws rest. ''Ivanov v. Russia'' = pre @ ''v.'' @ ws @ rest \<and> \<not> separator_occurs pre \<and>
      ws \<noteq> [] \<and> list_all is_space ws \<and> (rest = [] \<or> \<not> is_space (hd rest))"
    using sep o by blast
  show ?thesis
    using p w h r a n b s9 c o d by (intro conjI) assumption+
qed

text \<open>
  C9 as stated fails: in \<open>"Ivanov v. Petrov v. Russia"\<close> the text after the last separator
  is \<open>"Russia"\<close>, and the function returns the text after the first one.
\<close>

theorem extractCountry_last_separator_counterexample:
  "extractCountry (Some (''Ivanov v. Petrov'' @ '' v. '' @ ''Russia'')) =
     Inr (Some ''Petrov v. Russia'') \<and>
   extractCountry (Some (''Ivanov v. Petrov'' @ '' v. '' @ ''Russia'')) \<noteq> Inr (Some ''Russia'')"
  by (simp add: extractCountry_def group_to_end_def is_space_def is_line_terminator_def trim_def)

section \<open>Properties of the crawl loop\<close>

subsection \<open>The statistics\<close>

lemma flushBatch_stats: "flushBatch e s = Some s' \<Longrightarrow> stats s' = stats s"
  by (auto simp: flushBatch_def split: if_splits option.splits)

lemma flush_when_due_stats: "flush_when_due e s = Some s' \<Longrightarrow> stats s' = stats s"
  by (auto simp: flush_when_due_def split: if_splits dest: flushBatch_stats)

lemma attempt_stats:
  "attempt e n y k s = Some (k', s') \<Longrightarrow>
   stats s' =
     (case scrapeECHRApplication e n y of
        Inr (Some data) \<Rightarrow> (stats s)\<lparr>totalChecked := totalChecked (stats s) + 1, found := found (stats s) + 1\<rparr>
      | Inr None \<Rightarrow> (stats s)\<lparr>totalChecked := totalChecked (stats s) + 1, notFound := notFound (stats s) + 1\<rparr>
      | Inl err \<Rightarrow> (stats s)\<lparr>totalChecked := totalChecked (stats s) + 1, errors := errors (stats s) + 1\<rparr>)"
  by (auto simp: attempt_def Let_def split: sum.splits option.splits dest!: flush_when_due_stats)

lemma attempt_balanced:
  "attempt e n y k s = Some (k', s') \<Longrightarrow> stats_balanced s \<Longrightarrow> stats_balanced s'"
  by (drule attempt_stats) (simp add: stats_balanced_def split: sum.splits option.splits)

lemma year_segment_balanced:
  "year_segment fuel e cfg y n k s = Some (n', s') \<Longrightarrow> stats_balanced s \<Longrightarrow> stats_balanced s'"
proof (induction fuel arbitrary: n k s)
  case 0
  then show ?case by (simp split: if_splits)
next
  case (Suc fuel)
  show ?case
  proof (cases "int k < maxConsecutiveSkips cfg")
    case False
    then show ?thesis using Suc.prems by simp
  next
    case True
    then obtain k1 s1 where a: "attempt e n y k s = Some (k1, s1)"
      and r: "year_segment fuel e cfg y (n + 1) k1 s1 = Some (n', s')"
      using Suc.prems(1) by (auto split: option.splits)
    have "stats_balanced s1" using attempt_balanced[OF a Suc.prems(2)] .
    then show ?thesis using Suc.IH r by blast
  qed
qed

lemma year_step_balanced:
  "year_step fuel e cfg y n s = Some (y', n', s') \<Longrightarrow> stats_balanced s \<Longrightarrow> stats_balanced s'"
  by (auto simp: year_step_def stats_balanced_def split: option.splits
           dest!: year_segment_balanced flushBatch_stats)

lemma run_years_balanced:
  "run_years fuel e cfg y n s = Some s' \<Longrightarrow> stats_balanced s \<Longrightarrow> stats_balanced s'"
proof (induction fuel e cfg y n s rule: run_years.induct)
  case (1 fuel e cfg y n s)
  show ?case
  proof (cases "y \<le> maxYear cfg")
    case False
    then show ?thesis
      using "1.prems" by (auto simp: stats_balanced_def dest!: flushBatch_stats)
  next
    case True
    then obtain y1 n1 s1 where st: "year_step fuel e cfg y n s = Some (y1, n1, s1)"
      and r: "run_years fuel e cfg y1 n1 s1 = Some s'"
      using "1.prems"(1) by (auto split: option.splits)
    have "stats_balanced s1" using year_step_balanced[OF st "1.prems"(2)] .
    then show ?thesis using "1.IH"[OF True st] r by simp
  qed
qed

lemma new_scraper_balanced: "stats_balanced (new_scraper a)"
  by (simp add: stats_balanced_def new_scraper_def)

text \<open>
  C10. The statistics add up when the scraper is constructed; every pass through the loop
  body adds one to \<open>totalChecked\<close> and one to the sum of \<open>found\<close>, \<open>notFound\<close> and
  \<open>errors\<close>, so it keeps them adding up; and they add up in the scraper that \<open>run\<close>
  returns, which is the one \<open>printFinalStats\<close> prints.
\<close>

theorem stats_add_up:
  "stats_balanced (new_scraper a) \<and>
   (attempt e n y k s = Some (k', s1) \<longrightarrow>
      (stats_balanced s \<longrightarrow> stats_balanced s1) \<and>
      totalChecked (stats s1) = totalChecked (stats s) + 1 \<and>
      found (stats s1) + notFound (stats s1) + errors (stats s1) =
        found (stats s) + notFound (stats s) + errors (stats s) + 1) \<and>
   (run fuel e cfg (new_scraper a) = Some s' \<longrightarrow> stats_balanced s')"
proof (intro conjI impI)
  show "stats_balanced (new_scraper a)"
    by (rule new_scraper_balanced)
  show "run fuel e cfg (new_scraper a) = Some s' \<Longrightarrow> stats_balanced s'"
    unfolding run_def by (erule run_years_balanced) (rule new_scraper_balanced)
next
  assume a: "attempt e n y k s = Some (k', s1)"
  show "stats_balanced s \<Longrightarrow> stats_balanced s1"
    using a by (rule attempt_balanced)
  show "totalChecked (stats s1) = totalChecked (stats s) + 1"
    using attempt_stats[OF a] by (simp split: sum.splits option.splits)
  show "found (stats s1) + notFound (stats s1) + errors (stats s1) =
        found (stats s) + notFound (stats s) + errors (stats s) + 1"
    using attempt_stats[OF a] by (simp split: sum.splits option.splits)
qed

text \<open>
  A run over a site that serves one record, fails once and then serves nothing: three
  attempts, one of each kind.
\<close>

theorem stats_add_up_witness:
  "stats_balanced (new_scraper sample_adapter) \<and>
   (\<exists>k' s1. attempt (sample_env site_mixed True) 2 19 0 (new_scraper sample_adapter) = Some (k', s1) \<and>
      stats_balanced s1 \<and> totalChecked (stats s1) = 1 \<and> errors (stats s1) = 1) \<and>
   (\<exists>s'. run 3 (sample_env site_mixed True) small_settings (new_scraper sample_adapter) = Some s' \<and>
         stats s' = \<lparr>found = 1, notFound = 1, errors = 1, totalChecked = 3\<rparr> \<and>
         stats_balanced s')"
proof -
  let ?e = "sample_env site_mixed True"
  have "map_option stats (run 3 ?e small_settings (new_scraper sample_adapter))
      = Some \<lparr>found = 1, notFound = 1, errors = 1, totalChecked = 3\<rparr>"
    by code_simp
  then obtain s' where r: "run 3 ?e small_settings (new_scraper sample_adapter) = Some s'"
    and st: "stats s' = \<lparr>found = 1, notFound = 1, errors = 1, totalChecked = 3\<rparr>"
    by auto
  have b: "stats_balanced s'"
    using stats_add_up[of sample_adapter] r by blast
  have "map_option (errors \<circ> stats \<circ> snd) (attempt ?e 2 19 0 (new_scraper sample_adapter)) = Some 1"
    by code_simp
  then obtain k' s1 where a: "attempt ?e 2 19 0 (new_scraper sample_adapter) = Some (k', s1)"
    and er: "errors (stats s1) = 1"
    by auto
  have "stats_balanced s1 \<and> totalChecked (stats s1) = totalChecked (stats (new_scraper sample_adapter)) + 1"
    using stats_add_up[of sample_adapter ?e 2 19 0 "new_scraper sample_adapter" k' s1] a
    by blast
  then have c: "stats_balanced s1 \<and> totalChecked (stats s1) = 1"
    by (simp add: new_scraper_def)
  show ?thesis
    using stats_add_up[of sample_adapter] a c er r st b by blast
qed

subsection \<open>What one pass changes\<close>

lemma flush_when_due_below:
  "attemptCounter s < BATCH_ATTEMPTS \<Longrightarrow> flush_when_due e s = Some s"
  by (simp add: flush_when_due_def)

text \<open>
  A pass that stays below the flush threshold returns, and changes the counters and the
  queue only.
\<close>

lemma attempt_below:
  assumes "attemptCounter s + 2 < BATCH_ATTEMPTS"
  shows "attempt e n y k s =
     Some (if is_found (scrapeECHRApplication e n y) then 0 else k + 1,
       s\<lparr>stats :=
            (case scrapeECHRApplication e n y of
               Inr (Some data) \<Rightarrow> (stats s)\<lparr>totalChecked := totalChecked (stats s) + 1,
                                             found := found (stats s) + 1\<rparr>
             | Inr None \<Rightarrow> (stats s)\<lparr>totalChecked := totalChecked (stats s) + 1,
                                      notFound := notFound (stats s) + 1\<rparr>
             | Inl err \<Rightarrow> (stats s)\<lparr>totalChecked := totalChecked (stats s) + 1,
                                     errors := errors (stats s) + 1\<rparr>),
          attemptCounter :=
            attemptCounter s + (case scrapeECHRApplication e n y of Inl err \<Rightarrow> 2 | Inr r \<Rightarrow> 1),
          batchQueue :=
            batchQueue s @ (case scrapeECHRApplication e n y of Inr (Some data) \<Rightarrow> [data] | _ \<Rightarrow> [])\<rparr>)"
  using assms
  by (cases "scrapeECHRApplication e n y" rule: is_found.cases)
     (simp_all add: attempt_def Let_def flush_when_due_below)

lemma attemptCounter_attempt:
  "attemptCounter s + 2 < BATCH_ATTEMPTS \<Longrightarrow>
   map_option (attemptCounter \<circ> snd) (attempt e n y k s) =
     Some (attemptCounter s + (case scrapeECHRApplication e n y of Inl err \<Rightarrow> 2 | Inr r \<Rightarrow> 1))"
  by (simp add: attempt_below)


lemma batchQueue_flushBatch: "flushBatch e s = Some s' \<Longrightarrow> batchQueue s' = []"
  by (auto simp: flushBatch_def split: if_splits option.splits)

lemma d1_attempt_miss:
  assumes "\<not> is_found (scrapeECHRApplication e n y)"
  shows "map_option (d1 \<circ> snd) (attempt e n y k s) =
       (if BATCH_ATTEMPTS \<le> attemptCounter s +
             (case scrapeECHRApplication e n y of Inl err \<Rightarrow> 2 | Inr r \<Rightarrow> 1) \<and>
           batchQueue s \<noteq> []
        then map_option snd (saveBatch e (batchQueue s) (d1 s)) else Some (d1 s))"
  using assms
  by (cases "scrapeECHRApplication e n y" rule: is_found.cases)
     (simp_all add: attempt_def Let_def flush_when_due_def flushBatch_def option.map_comp o_def
        split: option.splits)

subsection \<open>A year segment\<close>

lemma fst_attempt:
  "attempt e n y k s = Some (k', s') \<Longrightarrow>
   k' = (if is_found (scrapeECHRApplication e n y) then 0 else k + 1)"
  by (cases "scrapeECHRApplication e n y" rule: is_found.cases)
     (auto simp: attempt_def Let_def)




lemma year_segment_stuck:
  "int k < maxConsecutiveSkips cfg \<Longrightarrow> attempt e n y k s = None \<Longrightarrow>
   year_segment f e cfg y n k s = None"
  by (cases f) simp_all

lemma year_segment_exit:
  "\<not> int k < maxConsecutiveSkips cfg \<Longrightarrow> year_segment f e cfg y n k s = Some (n, s)"
  by (cases f) simp_all

declare year_segment.simps [simp del]

subsection \<open>When the calls return\<close>

lemma pollImport_returns_from:
  assumes "poll e k j \<noteq> PollOtherError" "i \<le> j"
  shows "\<exists>r. pollImport e k i = Some r"
  using assms(2)
proof (induction "j - i" arbitrary: i)
  case 0
  then have "i = j" by simp
  then show ?case
    using assms(1) by (subst pollImport.simps) (simp split: poll_answer.splits)
next
  case (Suc d)
  then have "\<exists>r. pollImport e k (Suc i) = Some r"
    by (intro Suc.hyps(1)) simp_all
  then show ?case
    by (subst pollImport.simps) (simp split: poll_answer.splits)
qed

lemma pollImport_never:
  assumes "\<forall>j\<ge>i. poll e k j = PollOtherError"
  shows "pollImport e k i = None"
proof -
  have "e' = e \<longrightarrow> k' = k \<longrightarrow> i \<le> i' \<longrightarrow> False" if "pollImport e' k' i' = Some r" for e' k' i' r
  proof (rule pollImport.raw_induct[where P = "\<lambda>e' k' i' r. e' = e \<longrightarrow> k' = k \<longrightarrow> i \<le> i' \<longrightarrow> False", OF _ that])
    fix f e' k' i' r
    assume ih: "\<And>e' k' i' r. f e' k' i' = Some r \<Longrightarrow> e' = e \<longrightarrow> k' = k \<longrightarrow> i \<le> i' \<longrightarrow> False"
      and st: "(case poll e' k' i' of PollOtherError \<Rightarrow> f e' k' (Suc i')
            | PollRaises \<Rightarrow> Some (Inl FetchError) | _ \<Rightarrow> Some (Inr True)) = Some r"
    show "e' = e \<longrightarrow> k' = k \<longrightarrow> i \<le> i' \<longrightarrow> False"
    proof (intro impI)
      assume h: "e' = e" "k' = k" "i \<le> i'"
      then have "poll e' k' i' = PollOtherError" using assms by simp
      then have "f e k (Suc i') = Some r" using st h by simp
      then show False using ih[of e k "Suc i'" r] h by simp
    qed
  qed
  then show ?thesis
    by (cases "pollImport e k i") auto
qed

lemma same_api_refl: "same_api a a"
  by (simp add: same_api_def)

lemma same_api_update:
  "same_api a0 a \<Longrightarrow> same_api a0 (a\<lparr>repCache := c\<rparr>)"
  "same_api a0 a \<Longrightarrow> same_api a0 (a\<lparr>db := d\<rparr>)"
  "same_api a0 a \<Longrightarrow> same_api a0 (a\<lparr>calls := n\<rparr>)"
  by (simp_all add: same_api_def)

lemma same_api_executeSQL:
  "executeSQL e sql a = (r, a') \<Longrightarrow> same_api a0 a \<Longrightarrow> same_api a0 a'"
  by (auto simp: executeSQL_def Let_def same_api_def split: if_splits option.splits prod.splits sum.splits)

lemma same_api_findOrCreateRepresentative:
  "findOrCreateRepresentative e name a = (r, a') \<Longrightarrow> same_api a0 a \<Longrightarrow> same_api a0 a'"
  unfolding findOrCreateRepresentative_def
  by (auto split: option.splits if_splits prod.splits sum.splits)
     (blast intro: same_api_executeSQL same_api_update)+

lemma same_api_flushCacheIfNeeded:
  "same_api a0 a \<Longrightarrow> same_api a0 (flushCacheIfNeeded a)"
  by (simp add: same_api_def flushCacheIfNeeded_def Let_def)

lemma same_api_saveApplication:
  "saveApplication e data a = (r, a') \<Longrightarrow> same_api a0 a \<Longrightarrow> same_api a0 a'"
  unfolding saveApplication_def
  by (auto split: option.splits if_splits prod.splits sum.splits)
     (blast intro: same_api_executeSQL same_api_findOrCreateRepresentative
            same_api_flushCacheIfNeeded)+

lemma same_api_save_individually:
  "save_individually e cs res a = (r, a') \<Longrightarrow> same_api a0 a \<Longrightarrow> same_api a0 a'"
proof (induction cs arbitrary: res a)
  case Nil
  then show ?case by simp
next
  case (Cons c cs)
  obtain ok a1 where s: "saveApplication e c a = (ok, a1)"
    by (cases "saveApplication e c a")
  then have "same_api a0 a1"
    using Cons.prems(2) by (rule same_api_saveApplication)
  then show ?case
    using Cons.IH[of _ a1] Cons.prems(1) s by (cases ok) simp_all
qed

lemma same_api_uploadSQL:
  "uploadSQL e sql a = Some (r, a') \<Longrightarrow> same_api a0 a \<Longrightarrow> same_api a0 a'"
  by (auto simp: uploadSQL_def Let_def same_api_def split: if_splits option.splits)

lemma same_api_saveBatch:
  "saveBatch e cs a = Some (r, a') \<Longrightarrow> same_api a0 a \<Longrightarrow> same_api a0 a'"
  unfolding saveBatch_def
  by (auto split: if_splits option.splits prod.splits sum.splits)
     (blast intro: same_api_uploadSQL same_api_save_individually)+

lemma same_api_flushBatch:
  "flushBatch e s = Some s' \<Longrightarrow> same_api a0 (d1 s) \<Longrightarrow> same_api a0 (d1 s')"
  by (auto simp: flushBatch_def split: if_splits option.splits dest: same_api_saveBatch)

lemma same_api_attempt:
  "attempt e n y k s = Some (k', s') \<Longrightarrow> same_api a0 (d1 s) \<Longrightarrow> same_api a0 (d1 s')"
  by (auto simp: attempt_def Let_def flush_when_due_def
        split: sum.splits option.splits if_splits dest: same_api_flushBatch)

text \<open>
  A batch save returns when the adapter has no Import API, and when every import gets an
  answer to a poll that ends the polling.
\<close>

lemma uploadSQL_returns:
  assumes "\<forall>k. \<exists>i. poll e k i \<noteq> PollOtherError"
  shows "\<exists>r. uploadSQL e sql a = Some r"
proof -
  obtain i where "poll e (calls a) i \<noteq> PollOtherError"
    using assms by blast
  then obtain r where "pollImport e (calls a) 0 = Some r"
    using pollImport_returns_from[of e "calls a" i 0] by auto
  then show ?thesis
    by (simp add: uploadSQL_def Let_def)
qed

lemma saveBatch_returns:
  assumes "importAPI a \<longrightarrow> (\<forall>k. \<exists>i. poll e k i \<noteq> PollOtherError)"
  shows "\<exists>r. saveBatch e cs a = Some r"
proof (cases "importAPI a \<and> cs \<noteq> []")
  case False
  then show ?thesis by (auto simp: saveBatch_def)
next
  case True
  then obtain r where "uploadSQL e (buildBatchSQLWithReps cs) a = Some r"
    using uploadSQL_returns assms by blast
  then show ?thesis
    using True by (cases r; cases "fst r") (auto simp: saveBatch_def)
qed

lemma flushBatch_returns:
  assumes "importAPI (d1 s) \<longrightarrow> (\<forall>k. \<exists>i. poll e k i \<noteq> PollOtherError)"
  shows "\<exists>s'. flushBatch e s = Some s' \<and> importAPI (d1 s') = importAPI (d1 s)"
proof -
  obtain r where "saveBatch e (batchQueue s) (d1 s) = Some r"
    using saveBatch_returns[OF assms] by blast
  then have "\<exists>s'. flushBatch e s = Some s'"
    by (cases r) (simp add: flushBatch_def)
  then obtain s' where f: "flushBatch e s = Some s'"
    by blast
  then have "same_api (d1 s) (d1 s')"
    using same_api_refl by (rule same_api_flushBatch)
  then show ?thesis
    using f by (simp add: same_api_def)
qed

lemma attempt_returns:
  assumes "importAPI (d1 s) \<longrightarrow> (\<forall>k. \<exists>i. poll e k i \<noteq> PollOtherError)"
  shows "\<exists>k' s'. attempt e n y k s = Some (k', s') \<and> importAPI (d1 s') = importAPI (d1 s)"
proof -
  have fl: "\<exists>s'. flush_when_due e t = Some s'" if "d1 t = d1 s" for t
    using flushBatch_returns[of t e] assms that by (auto simp: flush_when_due_def)
  have "\<exists>r. attempt e n y k s = Some r"
    by (cases "scrapeECHRApplication e n y" rule: is_found.cases)
       (simp_all add: attempt_def Let_def fl)
  then obtain k' s' where a: "attempt e n y k s = Some (k', s')"
    by auto
  then have "same_api (d1 s) (d1 s')"
    using same_api_refl by (rule same_api_attempt)
  then show ?thesis
    using a by (simp add: same_api_def)
qed

text \<open>
  C6, at its failing input: one pass on a site whose fetch raises, from a counter of 0.
  The \<open>try\<close> block has counted the attempt before the fetch and the \<open>catch\<close> block
  counts it again, so the counter is 2 after one attempt. (Lemma
  \<open>attemptCounter_attempt\<close> gives the general rule: one for a fetch that returns, two
  for a fetch that raises.)
\<close>

theorem attempt_counts_error_twice:
  "scrapeECHRApplication (sample_env site_down True) 1 19 = Inl FetchError \<and>
   attemptCounter (new_scraper sample_adapter) = 0 \<and>
   map_option (attemptCounter \<circ> snd)
     (attempt (sample_env site_down True) 1 19 0 (new_scraper sample_adapter)) = Some 2"
  by (simp add: attempt_def site_down_def sample_env_def new_scraper_def flush_when_due_def
        BATCH_ATTEMPTS_def)

text \<open>
  C2, as amended. A pass whose fetch finds nothing or raises sends no statement of its
  own to the database: the adapter after the pass is the adapter before it, unless the
  attempt counter has reached the flush threshold with records in the queue, and then it
  is the adapter after \<open>saveBatch\<close> of those records (and the pass returns when that
  \<open>saveBatch\<close> does). \<open>markAsNotFound\<close> is not called.
\<close>

theorem miss_leaves_database_to_flush:
  "\<not> is_found (scrapeECHRApplication e n y) \<Longrightarrow>
   map_option (d1 \<circ> snd) (attempt e n y k s) =
     (if BATCH_ATTEMPTS \<le> attemptCounter s +
           (case scrapeECHRApplication e n y of Inl err \<Rightarrow> 2 | Inr r \<Rightarrow> 1) \<and>
         batchQueue s \<noteq> []
      then map_option snd (saveBatch e (batchQueue s) (d1 s)) else Some (d1 s))"
  by (rule d1_attempt_miss)

theorem miss_leaves_database_to_flush_witness:
  "\<not> is_found (scrapeECHRApplication (sample_env site_empty True) 5 19) \<and>
   (\<exists>k' s'. attempt (sample_env site_empty True) 5 19 0 (new_scraper sample_adapter) = Some (k', s') \<and>
      d1 s' = sample_adapter)"
proof -
  have o: "\<not> is_found (scrapeECHRApplication (sample_env site_empty True) 5 19)"
    by (simp add: sample_env_def site_empty_def)
  have "map_option (d1 \<circ> snd) (attempt (sample_env site_empty True) 5 19 0 (new_scraper sample_adapter)) =
      Some sample_adapter"
    using miss_leaves_database_to_flush[OF o, of 0 "new_scraper sample_adapter"] o
    by (simp add: new_scraper_def)
  then show ?thesis
    using o by auto
qed

text \<open>
  C2 as stated fails: the database holds the case \<open>5/19\<close> with a not-found counter of 0;
  the bulk loop probes \<open>5/19\<close> and finds nothing; afterwards no call has been made to the
  database and the counter is still 0, where \<open>markAsNotFound\<close> would have made it 1.
\<close>

theorem miss_not_marked_counterexample:
  "scrapeECHRApplication (sample_env site_empty True) 5 19 = Inr None \<and>
   map application_number (applications (db sample_adapter)) = [''5/19''] \<and>
   map not_found_count (applications (db sample_adapter)) = [0] \<and>
   map_option (\<lambda>p. map not_found_count (applications (db (d1 (snd p)))))
     (attempt (sample_env site_empty True) 5 19 0 (new_scraper sample_adapter)) = Some [0] \<and>
   map_option (\<lambda>p. calls (d1 (snd p)))
     (attempt (sample_env site_empty True) 5 19 0 (new_scraper sample_adapter)) = Some 0 \<and>
   map not_found_count (applications (db (snd
     (markAsNotFound (sample_env site_empty True) ''5'' ''19'' sample_adapter)))) = [1]"
  by code_simp




subsection \<open>The run ends, or does not\<close>

lemma year_segment_Suc:
  "year_segment (Suc f) e cfg y n k s =
     (if int k < maxConsecutiveSkips cfg
      then (case attempt e n y k s of
              None \<Rightarrow> None
            | Some (k', s') \<Rightarrow> year_segment f e cfg y (n + 1) k' s')
      else Some (n, s))"
  by (simp add: year_segment.simps)

lemma year_segment_mono:
  "year_segment f e cfg y n k s = Some r \<Longrightarrow> f \<le> f' \<Longrightarrow> year_segment f' e cfg y n k s = Some r"
proof (induction f arbitrary: f' n k s)
  case 0
  then show ?case
    by (cases "int k < maxConsecutiveSkips cfg") (simp_all add: year_segment.simps year_segment_exit)
next
  case (Suc f)
  then obtain g where g: "f' = Suc g" "f \<le> g"
    by (cases f') auto
  show ?case
  proof (cases "int k < maxConsecutiveSkips cfg")
    case False
    then show ?thesis using Suc.prems(1) by (simp add: year_segment_exit)
  next
    case True
    then obtain k' s' where a: "attempt e n y k s = Some (k', s')"
      and r: "year_segment f e cfg y (n + 1) k' s' = Some r"
      using Suc.prems(1) by (auto simp: year_segment_Suc split: option.splits)
    show ?thesis
      unfolding g(1) using True a Suc.IH[OF r g(2)] by (simp add: year_segment_Suc)
  qed
qed

lemma year_segment_terminates:
  assumes absent: "\<forall>n\<ge>B. \<not> is_found (scrapeECHRApplication e n y)"
    and polls: "api \<longrightarrow> (\<forall>k. \<exists>i. poll e k i \<noteq> PollOtherError)"
  shows "importAPI (d1 s) = api \<Longrightarrow>
     \<exists>f n' s'. year_segment f e cfg y n k s = Some (n', s') \<and> importAPI (d1 s') = api"
proof (induction "if n < B then nat (B - n) + nat (maxConsecutiveSkips cfg) + 1
                  else nat (maxConsecutiveSkips cfg - int k)"
       arbitrary: n k s rule: less_induct)
  case less
  show ?case
  proof (cases "int k < maxConsecutiveSkips cfg")
    case False
    then show ?thesis using less.prems by (auto simp: year_segment_exit)
  next
    case True
    obtain k1 s1 where a: "attempt e n y k s = Some (k1, s1)"
      and i: "importAPI (d1 s1) = importAPI (d1 s)"
      using attempt_returns[of s e n y k] polls less.prems by blast
    have "(if n + 1 < B then nat (B - (n + 1)) + nat (maxConsecutiveSkips cfg) + 1
           else nat (maxConsecutiveSkips cfg - int k1))
        < (if n < B then nat (B - n) + nat (maxConsecutiveSkips cfg) + 1
           else nat (maxConsecutiveSkips cfg - int k))"
    proof (cases "n < B")
      case True
      then show ?thesis by auto
    next
      case False
      then have "\<not> is_found (scrapeECHRApplication e n y)" using absent by simp
      then have "k1 = k + 1" using fst_attempt[OF a] by simp
      then show ?thesis using False \<open>int k < maxConsecutiveSkips cfg\<close> by auto
    qed
    then obtain f n' s' where "year_segment f e cfg y (n + 1) k1 s1 = Some (n', s')"
      "importAPI (d1 s') = api"
      using less.hyps[of "n + 1" k1 s1] i less.prems by auto
    then have "year_segment (Suc f) e cfg y n k s = Some (n', s') \<and> importAPI (d1 s') = api"
      using True a by (simp add: year_segment_Suc)
    then show ?thesis by blast
  qed
qed

lemma run_years_mono:
  "run_years f e cfg y n s = Some r \<Longrightarrow> f \<le> f' \<Longrightarrow> run_years f' e cfg y n s = Some r"
proof (induction f e cfg y n s rule: run_years.induct)
  case (1 f e cfg y n s)
  show ?case
  proof (cases "y \<le> maxYear cfg")
    case False
    then show ?thesis using "1.prems"(1) by (subst run_years.simps, subst (asm) run_years.simps) simp
  next
    case True
    then obtain y1 n1 s1 where st: "year_step f e cfg y n s = Some (y1, n1, s1)"
      and r: "run_years f e cfg y1 n1 s1 = Some r"
      using "1.prems"(1) by (subst (asm) run_years.simps) (auto split: option.splits)
    have st': "year_step f' e cfg y n s = Some (y1, n1, s1)"
      using st "1.prems"(2) by (auto simp: year_step_def split: option.splits dest: year_segment_mono)
    have "run_years f' e cfg y1 n1 s1 = Some r"
      using "1.IH"[OF True st refl refl r "1.prems"(2)] .
    then show ?thesis using True st' by (subst run_years.simps) simp
  qed
qed

lemma run_years_terminates:
  assumes absent: "\<forall>y. \<exists>B. \<forall>n\<ge>B. \<not> is_found (scrapeECHRApplication e n y)"
    and polls: "api \<longrightarrow> (\<forall>k. \<exists>i. poll e k i \<noteq> PollOtherError)"
  shows "importAPI (d1 s) = api \<Longrightarrow> \<exists>f r. run_years f e cfg y n s = Some r"
proof (induction "nat (maxYear cfg + 1 - y)" arbitrary: y n s rule: less_induct)
  case less
  show ?case
  proof (cases "y \<le> maxYear cfg")
    case False
    obtain s' where "flushBatch e s = Some s'"
      using flushBatch_returns[of s e] polls less.prems by blast
    then have "run_years 0 e cfg y n s = Some s'"
      using False by (subst run_years.simps) simp
    then show ?thesis by blast
  next
    case True
    obtain B where B: "\<forall>n\<ge>B. \<not> is_found (scrapeECHRApplication e n y)"
      using absent by blast
    obtain f1 n1 s1 where seg: "year_segment f1 e cfg y n 0 s = Some (n1, s1)"
      and i1: "importAPI (d1 s1) = api"
      using year_segment_terminates[OF B polls less.prems] by blast
    obtain s2 where fl: "flushBatch e s1 = Some s2" and i2: "importAPI (d1 s2) = importAPI (d1 s1)"
      using flushBatch_returns[of s1 e] polls i1 by blast
    have "nat (maxYear cfg + 1 - (y + 1)) < nat (maxYear cfg + 1 - y)"
      using True by simp
    then obtain f2 r where rest: "run_years f2 e cfg (y + 1) 1 s2 = Some r"
      using less.hyps[of "y + 1" s2 1] i1 i2 by auto
    have seg': "year_segment (max f1 f2) e cfg y n 0 s = Some (n1, s1)"
      using year_segment_mono[OF seg] by simp
    have rest': "run_years (max f1 f2) e cfg (y + 1) 1 s2 = Some r"
      using run_years_mono[OF rest] by simp
    have "run_years (max f1 f2) e cfg y n s = Some r"
      using True seg' fl rest' by (subst run_years.simps) (simp add: year_step_def)
    then show ?thesis by blast
  qed
qed

lemma save_individually_counts:
  "success (fst (save_individually e cs res a)) + failed (fst (save_individually e cs res a)) =
     success res + failed res + length cs"
proof (induction cs arbitrary: res a)
  case Nil
  then show ?case by simp
next
  case (Cons c cs)
  show ?case
    by (cases "saveApplication e c a"; cases "fst (saveApplication e c a)")
       (simp_all add: Cons.IH)
qed

lemma save_individually_counts':
  "save_individually e cs \<lparr>success = 0, failed = 0\<rparr> a = (r, a') \<Longrightarrow>
   success r + failed r = length cs"
  using save_individually_counts[of e cs "\<lparr>success = 0, failed = 0\<rparr>" a] by simp

lemma saveBatch_counts:
  "saveBatch e cs a = Some (r, a') \<Longrightarrow> success r + failed r = length cs"
  by (auto simp: saveBatch_def split: if_splits option.splits prod.splits sum.splits
        dest: save_individually_counts')

lemma batchQueue_run_years:
  "run_years f e cfg y n s = Some s' \<Longrightarrow> batchQueue s' = []"
proof (induction f e cfg y n s rule: run_years.induct)
  case (1 f e cfg y n s)
  show ?case
  proof (cases "y \<le> maxYear cfg")
    case False
    then show ?thesis
      using "1.prems" by (subst (asm) run_years.simps) (auto simp: batchQueue_flushBatch)
  next
    case True
    then obtain y1 n1 s1 where st: "year_step f e cfg y n s = Some (y1, n1, s1)"
      and r: "run_years f e cfg y1 n1 s1 = Some s'"
      using "1.prems" by (subst (asm) run_years.simps) (auto split: option.splits)
    show ?thesis
      using "1.IH"[OF True st refl refl r] .
  qed
qed

text \<open>
  Whatever the fetches and the calls to the database do (any of them may fail, in any
  pattern), \<open>run\<close> returns, with an empty queue, under two provisos: every year has an
  identifier from which the site serves no record, and the polling of every import ends
  (or the adapter has no Import API). A fetch that raises is counted in \<open>errors\<close> and as a
  skip; the two counts of a \<open>saveBatch\<close> that returns account for every record of the
  batch.
\<close>

lemma run_completes:
  assumes "\<forall>y. \<exists>B. \<forall>n\<ge>B. \<not> is_found (scrapeECHRApplication e n y)"
    and "importAPI (d1 s) \<longrightarrow> (\<forall>k. \<exists>i. poll e k i \<noteq> PollOtherError)"
  shows "\<exists>fuel s'. run fuel e cfg s = Some s' \<and> batchQueue s' = []"
proof -
  obtain fuel s' where r: "run_years fuel e cfg (startYear cfg) (startNumber cfg) s = Some s'"
    using run_years_terminates[OF assms(1), of "importAPI (d1 s)" s] assms(2) by blast
  then have "batchQueue s' = []"
    by (rule batchQueue_run_years)
  then show ?thesis
    using r unfolding run_def by blast
qed

lemma fetch_error_counted:
  assumes "scrapeECHRApplication e n y = Inl err" "attempt e n y k s = Some (k', s')"
  shows "errors (stats s') = errors (stats s) + 1" "k' = k + 1"
  using attempt_stats[OF assms(2)] fst_attempt[OF assms(2)] assms(1) by simp_all

text \<open>
  Neither proviso can be dropped. On a site that serves a record for every identifier the
  inner loop never ends, whatever the bound.
\<close>

lemma year_segment_never_ends:
  assumes "\<forall>n. is_found (scrapeECHRApplication e n y)" "0 < maxConsecutiveSkips cfg"
  shows "year_segment fuel e cfg y n 0 s = None"
proof (induction fuel arbitrary: n s)
  case 0
  then show ?case
    using assms(2) by (simp add: year_segment.simps)
next
  case (Suc fuel)
  show ?case
  proof (cases "attempt e n y 0 s")
    case None
    then show ?thesis using assms(2) by (simp add: year_segment_Suc)
  next
    case (Some p)
    obtain k' s' where p: "p = (k', s')" by (cases p)
    have "k' = 0"
      using fst_attempt[of e n y 0 s k' s'] Some p assms(1) by simp
    then show ?thesis
      using assms(2) Some p Suc.IH by (simp add: year_segment_Suc)
  qed
qed

lemma run_never_ends:
  assumes "\<forall>n y. is_found (scrapeECHRApplication e n y)" "0 < maxConsecutiveSkips cfg"
    and "startYear cfg \<le> maxYear cfg"
  shows "run fuel e cfg s = None"
proof -
  have "year_segment fuel e cfg (startYear cfg) (startNumber cfg) 0 s = None"
    using assms(1,2) by (intro year_segment_never_ends) simp_all
  then show ?thesis
    unfolding run_def using assms(3) by (subst run_years.simps) (simp add: year_step_def)
qed

text \<open>
  And a batch save through the Import API does not return when the import it starts is
  answered, at every poll, without success and with an error other than
  \<open>Not currently importing anything.\<close>: then the flush that called it does not return,
  nor the pass, nor the run.
\<close>

lemma saveBatch_hangs:
  assumes "\<forall>i. poll e (calls a) i = PollOtherError" "\<not> transport_fails e (calls a)"
    and "importAPI a" "cs \<noteq> []"
  shows "saveBatch e cs a = None"
proof -
  have "pollImport e (calls a) 0 = None"
    using assms(1) by (intro pollImport_never) simp
  then show ?thesis
    using assms(2-4) by (simp add: saveBatch_def uploadSQL_def Let_def)
qed

lemma flushBatch_hangs:
  assumes "\<forall>k i. poll e k i = PollOtherError" "\<forall>k. \<not> transport_fails e k"
    and "importAPI (d1 s)" "batchQueue s \<noteq> []"
  shows "flushBatch e s = None"
  using saveBatch_hangs[of e "d1 s" "batchQueue s"] assms by (simp add: flushBatch_def)

lemma attempt_keeps_queue:
  assumes "\<forall>k i. poll e k i = PollOtherError" "\<forall>k. \<not> transport_fails e k"
    and "importAPI (d1 s)" "batchQueue s \<noteq> [] \<or> is_found (scrapeECHRApplication e n y)"
    and "attempt e n y k s = Some (k', s')"
  shows "importAPI (d1 s') \<and> batchQueue s' \<noteq> []"
proof -
  have fl: "flush_when_due e t = Some s' \<Longrightarrow> importAPI (d1 t) \<Longrightarrow> batchQueue t \<noteq> [] \<Longrightarrow>
      importAPI (d1 s') \<and> batchQueue s' \<noteq> []" for t
    using flushBatch_hangs[OF assms(1,2), of t]
    by (auto simp: flush_when_due_def split: if_splits)
  show ?thesis
    using assms(3,4,5)
    by (cases "scrapeECHRApplication e n y" rule: is_found.cases)
       (auto simp: attempt_def Let_def dest!: fl)
qed

lemma year_segment_keeps_queue:
  assumes "\<forall>k i. poll e k i = PollOtherError" "\<forall>k. \<not> transport_fails e k"
  shows "year_segment f e cfg y n k s = Some (n', s') \<Longrightarrow> importAPI (d1 s) \<Longrightarrow>
     batchQueue s \<noteq> [] \<or> (int k < maxConsecutiveSkips cfg \<and> is_found (scrapeECHRApplication e n y)) \<Longrightarrow>
     importAPI (d1 s') \<and> batchQueue s' \<noteq> []"
proof (induction f arbitrary: n k s)
  case 0
  then show ?case by (auto simp: year_segment.simps split: if_splits)
next
  case (Suc f)
  show ?case
  proof (cases "int k < maxConsecutiveSkips cfg")
    case False
    then show ?thesis using Suc.prems by (auto simp: year_segment_exit)
  next
    case True
    then obtain k1 s1 where a: "attempt e n y k s = Some (k1, s1)"
      and r: "year_segment f e cfg y (n + 1) k1 s1 = Some (n', s')"
      using Suc.prems(1) by (auto simp: year_segment_Suc split: option.splits)
    have "importAPI (d1 s1) \<and> batchQueue s1 \<noteq> []"
      using attempt_keeps_queue[OF assms Suc.prems(2) _ a] Suc.prems(3) by blast
    then show ?thesis
      using Suc.IH[OF r] by blast
  qed
qed

lemma run_hangs:
  assumes "\<forall>k i. poll e k i = PollOtherError" "\<forall>k. \<not> transport_fails e k"
    and "importAPI (d1 s)" "is_found (scrapeECHRApplication e (startNumber cfg) (startYear cfg))"
    and "startYear cfg \<le> maxYear cfg" "0 < maxConsecutiveSkips cfg"
  shows "run fuel e cfg s = None"
proof (cases "year_segment fuel e cfg (startYear cfg) (startNumber cfg) 0 s")
  case None
  then show ?thesis
    unfolding run_def using assms(5) by (subst run_years.simps) (simp add: year_step_def)
next
  case (Some p)
  obtain n' s' where p: "p = (n', s')" by (cases p)
  have "importAPI (d1 s') \<and> batchQueue s' \<noteq> []"
    using year_segment_keeps_queue[OF assms(1,2), of fuel cfg "startYear cfg" "startNumber cfg" 0 s n' s']
      Some p assms(3,4,6) by simp
  then have "flushBatch e s' = None"
    using flushBatch_hangs[OF assms(1,2)] by blast
  then show ?thesis
    unfolding run_def using assms(5) Some p by (subst run_years.simps) (simp add: year_step_def)
qed

text \<open>
  C7, at its failing input: the site serves the record \<open>1/19\<close> and nothing else, two
  skips end the year, and the adapter has the Import API. The three attempts are made
  and counted. The flush at the end of the year uploads the batch of the one record; the
  API answers every poll about the import without success and with an error of its own,
  as it does for an import that has failed; \<open>pollImport\<close> has no exit for such an
  answer, so \<open>saveBatch\<close> never returns and the run never completes, whatever the bound
  on the passes. Where the same batch save is
  refused before the polling (every call fails in transport), the error is raised,
  \<open>saveBatch\<close> falls back to single saves, and the run completes with its statistics.
\<close>

theorem run_hangs_on_failed_import:
  "scrapeECHRApplication failed_import_env 1 19 = Inr (Some sample_record) \<and>
   importAPI sample_adapter \<and>
   (\<forall>k i. poll failed_import_env k i = PollOtherError) \<and>
   pollImport failed_import_env 0 0 = None \<and>
   saveBatch failed_import_env [sample_record] sample_adapter = None \<and>
   (\<forall>fuel. run fuel failed_import_env small_settings (new_scraper sample_adapter) = None) \<and>
   map_option stats
     (run 3 (offline_env (site_one_case 1)) small_settings (new_scraper sample_adapter)) =
     Some \<lparr>found = 1, notFound = 2, errors = 0, totalChecked = 3\<rparr> \<and>
   map_option fst (saveBatch (offline_env (site_one_case 1)) [sample_record] sample_adapter) =
     Some \<lparr>success = 0, failed = 1\<rparr>"
proof -
  let ?e = failed_import_env
  have o: "scrapeECHRApplication ?e 1 19 = Inr (Some sample_record)"
    by (simp add: failed_import_env_def sample_env_def site_one_case_def)
  have i: "importAPI sample_adapter"
    by (simp add: sample_adapter_def)
  have p: "\<forall>k i. poll ?e k i = PollOtherError"
    by (simp add: failed_import_env_def)
  have t: "\<forall>k. \<not> transport_fails ?e k"
    by (simp add: failed_import_env_def sample_env_def)
  have l: "pollImport ?e 0 0 = None"
    using p by (intro pollImport_never) simp
  have b: "saveBatch ?e [sample_record] sample_adapter = None"
    using p t i by (intro saveBatch_hangs) simp_all
  have r: "run fuel ?e small_settings (new_scraper sample_adapter) = None" for fuel
    using p t by (rule run_hangs) (simp_all add: new_scraper_def i small_settings_def o)
  have c: "map_option stats
     (run 3 (offline_env (site_one_case 1)) small_settings (new_scraper sample_adapter)) =
     Some \<lparr>found = 1, notFound = 2, errors = 0, totalChecked = 3\<rparr>"
    by code_simp
  have d: "map_option fst (saveBatch (offline_env (site_one_case 1)) [sample_record] sample_adapter) =
     Some \<lparr>success = 0, failed = 1\<rparr>"
    by code_simp
  show ?thesis
    using o i p l b r c d by blast
qed

section \<open>Properties of the persisted cases\<close>

subsection \<open>Plain text reaches the database as it is\<close>

lemma shell_plain_subset: "set t \<subseteq> set s \<Longrightarrow> shell_plain s \<Longrightarrow> shell_plain t"
  by (auto simp: shell_plain_def list_all_iff)

lemma shell_plain_append [simp]: "shell_plain (s @ t) \<longleftrightarrow> shell_plain s \<and> shell_plain t"
  by (simp add: shell_plain_def)

lemma shell_plain_Cons [simp]: "shell_plain (c # s) \<longleftrightarrow> \<not> shell_special c \<and> shell_plain s"
  by (simp add: shell_plain_def)

lemma shell_plain_Nil [simp]: "shell_plain []"
  by (simp add: shell_plain_def)

lemma split_parts: "p \<in> set (split sep s) \<Longrightarrow> set p \<subseteq> set s"
proof (induction s arbitrary: p)
  case Nil
  then show ?case by simp
next
  case (Cons c cs)
  show ?case
  proof (cases "c = sep")
    case True
    then show ?thesis using Cons by auto
  next
    case False
    obtain q qs where q: "split sep cs = q # qs"
      using split_not_Nil[of sep cs] by (cases "split sep cs") auto
    then have "p = c # q \<or> p \<in> set qs"
      using Cons.prems False by simp
    then show ?thesis
      using Cons.IH[of q] Cons.IH[of p] q by auto
  qed
qed

lemma shell_plain_replicate: "\<not> shell_special c \<Longrightarrow> shell_plain (replicate n c)"
  by (induction n) simp_all

lemma shell_plain_padStart2: "shell_plain s \<Longrightarrow> shell_plain (padStart2 s)"
  by (simp add: padStart2_def shell_plain_replicate shell_special_def)

lemma plain_text_convertDate: "plain_text x \<Longrightarrow> plain_text (convertDate x)"
proof (cases x)
  case None
  then show ?thesis by (simp add: convertDate_def plain_text_def)
next
  case (Some s)
  assume "plain_text x"
  then have s: "shell_plain s" using Some by (simp add: plain_text_def)
  have part: "shell_plain p" if "p \<in> set (split (CHR ''/'') s)" for p
    using split_parts[OF that] s by (rule shell_plain_subset)
  have dash: "\<not> shell_special (CHR ''-'')"
    by (simp add: shell_special_def)
  show ?thesis
  proof (cases "split (CHR ''/'') s")
    case Nil
    then show ?thesis using Some s by (simp add: convertDate_def plain_text_def)
  next
    case (Cons d r1)
    show ?thesis
    proof (cases r1)
      case Nil
      then show ?thesis using Some s Cons by (simp add: convertDate_def plain_text_def)
    next
      case (Cons m r2)
      note c2 = this
      show ?thesis
      proof (cases r2)
        case Nil
        then show ?thesis
          using Some s \<open>split (CHR ''/'') s = d # r1\<close> c2 by (simp add: convertDate_def plain_text_def)
      next
        case (Cons y r3)
        have "shell_plain d" "shell_plain m" "shell_plain y"
          using part \<open>split (CHR ''/'') s = d # r1\<close> c2 Cons by simp_all
        then show ?thesis
          using Some s \<open>split (CHR ''/'') s = d # r1\<close> c2 Cons dash
          by (simp add: convertDate_def plain_text_def shell_plain_padStart2)
      qed
    qed
  qed
qed

lemma shell_plain_template: "plain_text x \<Longrightarrow> shell_plain (template x)"
  by (cases x) (simp_all add: plain_text_def shell_special_def)

lemma plain_text_literal_or_NULL: "plain_text x \<Longrightarrow> plain_text (literal_or_NULL x)"
  by (simp add: literal_or_NULL_def plain_text_def)

lemma plain_text_escapeSQL: "plain_text x \<Longrightarrow> plain_text (escapeSQL x)"
  by (simp add: escapeSQL_def plain_text_def)

lemma spaces_then_group_suffix: "spaces_then_group cs = Some g \<Longrightarrow> set g \<subseteq> set cs"
proof (induction cs)
  case Nil
  then show ?case by simp
next
  case (Cons c cs)
  then show ?case
    by (auto simp: group_to_end_def split: if_splits option.splits)
qed

lemma match_here_suffix: "match_here s = Some g \<Longrightarrow> set g \<subseteq> set s"
  by (cases s rule: match_here.cases) (auto split: if_splits dest: spaces_then_group_suffix)

lemma match_title_suffix: "match_title t = Some g \<Longrightarrow> set g \<subseteq> set t"
proof (induction t)
  case Nil
  then show ?case by simp
next
  case (Cons c cs)
  show ?case
  proof (cases "match_here (c # cs)")
    case None
    then show ?thesis using Cons by auto
  next
    case (Some h)
    then show ?thesis using Cons.prems match_here_suffix[OF Some] by simp
  qed
qed

lemma set_trim: "set (trim g) \<subseteq> set g"
  using set_dropWhileD[of _ is_space "rev (dropWhile is_space g)"] set_dropWhileD[of _ is_space g]
  by (auto simp: trim_def)

lemma plain_text_extractCountry:
  assumes "plain_text title" "extractCountry title = Inr ctry"
  shows "plain_text ctry"
proof (cases ctry)
  case None
  then show ?thesis by (simp add: plain_text_def)
next
  case (Some c)
  then obtain t g where t: "title = Some t" "match_title t = Some g" "c = trim g"
    using assms(2) by (auto simp: extractCountry_def split: option.splits)
  have "set c \<subseteq> set t"
    using set_trim[of g] match_title_suffix[OF t(2)] t(3) by auto
  then have "shell_plain c"
    using assms(1) t(1) by (auto simp: plain_text_def intro: shell_plain_subset)
  then show ?thesis
    using Some by (simp add: plain_text_def)
qed

lemma plain_eventValues:
  assumes "list_all (\<lambda>ev. plain_text (description ev) \<and> plain_text (eventDate ev)) evs"
    and "list_all shell_plain (application_ref_texts ref)"
  shows "list_all shell_plain (concat (map event_texts (eventValues ref evs)))"
proof -
  have "list_all shell_plain (event_texts v)" if mem: "v \<in> set (eventValues ref evs)" for v
  proof -
    obtain i ev where v: "v = \<lparr>ev_application = ref,
        ev_event_date = template (convertDate (eventDate ev)),
        ev_description = template (escapeSQL (description ev)),
        ev_is_last_event = (int i = int (length evs) - 1)\<rparr>" and ev: "ev \<in> set evs"
    proof -
      obtain p where p: "p \<in> set (enumerate 0 evs)"
        and vp: "v = (case p of (i, event) \<Rightarrow>
          \<lparr>ev_application = ref,
           ev_event_date = template (convertDate (eventDate event)),
           ev_description = template (escapeSQL (description event)),
           ev_is_last_event = (int i = int (length evs) - 1)\<rparr>)"
        using mem unfolding eventValues_def by auto
      obtain i ev where ie: "p = (i, ev)" by (cases p)
      have "ev \<in> set evs"
        using p unfolding ie by (auto simp: in_set_enumerate_eq)
      then show ?thesis
        using that[of ev i] vp unfolding ie by simp
    qed
    have "plain_text (description ev)" "plain_text (eventDate ev)"
      using assms(1) ev by (simp_all add: list_all_iff)
    then show ?thesis
      unfolding v event_texts_def using assms(2)
      by (simp add: shell_plain_template plain_text_convertDate plain_text_escapeSQL)
  qed
  then show ?thesis
    by (auto simp: list_all_iff)
qed

lemma plain_optional_text: "plain_text x \<Longrightarrow> list_all shell_plain (optional_text x)"
  by (cases x) (simp_all add: plain_text_def)

lemma plain_appSQL:
  assumes "plain_record data" "extractCountry (applicationTitle data) = Inr ctry"
  shows "plain_command [appSQL data rid ctry]"
proof -
  have "plain_text ctry"
    using assms by (auto simp: plain_record_def intro: plain_text_extractCountry)
  moreover have "list_all shell_plain (representative_ref_texts
      (case rid of None \<Rightarrow> RepNull | Some n \<Rightarrow> if n = 0 then RepNull else RepId n))"
    by (simp split: option.splits)
  ultimately show ?thesis
    using assms(1)
    by (simp add: plain_command_def appSQL_def appValues_def application_texts_def
          plain_record_def shell_plain_template plain_text_convertDate plain_text_escapeSQL
          plain_optional_text plain_text_literal_or_NULL)
qed

lemma plain_select_application:
  "plain_record data \<Longrightarrow> plain_command [SelectApplicationId (template (applicationNumber data))]"
  by (simp add: plain_command_def plain_record_def shell_plain_template)

lemma plain_eventsSQL: "plain_record data \<Longrightarrow> plain_command (eventsSQL appId data)"
  using plain_eventValues[of "majorEventsList data" "AppId appId"]
  by (simp add: plain_command_def eventsSQL_def plain_record_def)

lemma shell_plain_command: "plain_command sql \<Longrightarrow> shell e sql = Some sql"
  by (simp add: shell_def)

subsection \<open>The skip flag is kept\<close>

lemma applications_fold_representatives:
  "applications (fold insert_or_ignore_representative names d) = applications d"
  by (induction names arbitrary: d) (simp_all add: insert_or_ignore_representative_def)

lemma events_fold_representatives:
  "events (fold insert_or_ignore_representative names d) = events d"
  by (induction names arbitrary: d) (simp_all add: insert_or_ignore_representative_def)

lemma applications_delete_events: "applications (delete_events ref d) = applications d"
  by (simp add: delete_events_def split: option.splits)

lemma skipped_map:
  assumes "\<And>r. application_number (f r) = application_number r"
    and "\<And>r. skip_scraping r \<Longrightarrow> skip_scraping (f r)"
  shows "skipped d \<subseteq> skipped (d\<lparr>applications := map f (applications d)\<rparr>)"
proof
  fix x assume "x \<in> skipped d"
  then obtain r where r: "r \<in> set (applications d)" "skip_scraping r" "application_number r = x"
    by (auto simp: skipped_def)
  then have "f r \<in> set (filter skip_scraping (map f (applications d)))"
    "application_number (f r) = x"
    using assms by auto
  then have "x \<in> application_number ` set (filter skip_scraping (map f (applications d)))"
    by blast
  then show "x \<in> skipped (d\<lparr>applications := map f (applications d)\<rparr>)"
    by (simp add: skipped_def)
qed

lemma skipped_upsert: "skipped d \<subseteq> skipped (upsert_application e v d)"
proof (cases "list_ex (\<lambda>r. application_number r = v_application_number v) (applications d)")
  case True
  then show ?thesis
    unfolding upsert_application_def Let_def
    by (simp only: if_True) (rule skipped_map; simp add: on_conflict_update_def)
next
  case False
  then show ?thesis
    by (auto simp: upsert_application_def Let_def skipped_def)
qed

lemma skipped_update_not_found: "skipped d \<subseteq> skipped (update_not_found number d)"
  unfolding update_not_found_def
  by (rule skipped_map) (simp_all add: update_not_found_row_def)

lemma skipped_exec_statement:
  "exec_statement e st d = Inr (d', x) \<Longrightarrow> skipped d \<subseteq> skipped d'"
proof (cases st)
  case (InsertApplicationOnConflictUpdate v)
  then show "exec_statement e st d = Inr (d', x) \<Longrightarrow> skipped d \<subseteq> skipped d'"
    using skipped_upsert[of d e v] by auto
next
  case (UpdateNotFound n)
  then show "exec_statement e st d = Inr (d', x) \<Longrightarrow> skipped d \<subseteq> skipped d'"
    using skipped_update_not_found[of d n] by auto
qed (auto simp: skipped_def applications_fold_representatives applications_delete_events
          split: if_splits)

lemma skipped_exec_command:
  "skipped d \<subseteq> skipped (fst (exec_command e sts d))"
proof (induction sts arbitrary: d)
  case Nil
  then show ?case by simp
next
  case (Cons st sts)
  show ?case
  proof (cases "exec_statement e st d")
    case (Inl err)
    then show ?thesis by simp
  next
    case (Inr p)
    obtain d' x where p: "p = (d', x)" by (cases p)
    have "skipped d \<subseteq> skipped d'"
      using Inr p by (auto dest: skipped_exec_statement)
    moreover have "skipped d' \<subseteq> skipped (fst (exec_command e sts d'))"
      by (rule Cons.IH)
    ultimately show ?thesis
      using Inr p by auto
  qed
qed

lemma skipped_executeSQL:
  "skipped (db a) \<subseteq> skipped (db (snd (executeSQL e sql a)))"
proof (cases "shell e sql")
  case None
  then show ?thesis by (simp add: executeSQL_def Let_def)
next
  case (Some received)
  then show ?thesis
    using skipped_exec_command[of "db a" e received]
    by (auto simp: executeSQL_def Let_def split: prod.splits sum.splits)
qed

lemma skipped_database_after: "skipped d \<subseteq> skipped (database_after e sql d)"
  using skipped_exec_command[of d e sql]
  by (auto simp: database_after_def split: prod.splits sum.splits)

lemma keeps_skipped_refl: "keeps_skipped a a"
  by (simp add: keeps_skipped_def)

lemma keeps_skipped_same_db: "keeps_skipped a0 a \<Longrightarrow> db a' = db a \<Longrightarrow> keeps_skipped a0 a'"
  by (simp add: keeps_skipped_def)

lemma keeps_skipped_repCache:
  "keeps_skipped a0 a \<Longrightarrow> keeps_skipped a0 (a\<lparr>repCache := c\<rparr>)"
  by (simp add: keeps_skipped_def)

lemma keeps_skipped_executeSQL:
  "executeSQL e sql a = (r, a') \<Longrightarrow> keeps_skipped a0 a \<Longrightarrow> keeps_skipped a0 a'"
  using skipped_executeSQL[of a e sql] by (auto simp: keeps_skipped_def)

lemma keeps_skipped_findOrCreateRepresentative:
  "findOrCreateRepresentative e name a = (r, a') \<Longrightarrow> keeps_skipped a0 a \<Longrightarrow>
   keeps_skipped a0 a'"
  unfolding findOrCreateRepresentative_def
  by (auto split: option.splits if_splits prod.splits sum.splits)
     (blast intro: keeps_skipped_executeSQL keeps_skipped_repCache)+

lemma db_flushCacheIfNeeded: "db (flushCacheIfNeeded a) = db a"
  by (simp add: flushCacheIfNeeded_def Let_def)

lemma keeps_skipped_flushCacheIfNeeded:
  "keeps_skipped a0 a \<Longrightarrow> keeps_skipped a0 (flushCacheIfNeeded a)"
  by (simp add: keeps_skipped_def db_flushCacheIfNeeded)

lemma keeps_skipped_saveApplication:
  "saveApplication e data a = (r, a') \<Longrightarrow> keeps_skipped a0 a \<Longrightarrow> keeps_skipped a0 a'"
  unfolding saveApplication_def
  by (auto split: option.splits if_splits prod.splits sum.splits)
     (blast intro: keeps_skipped_executeSQL keeps_skipped_findOrCreateRepresentative
            keeps_skipped_flushCacheIfNeeded)+

lemma keeps_skipped_save_individually:
  "save_individually e cs res a = (r, a') \<Longrightarrow> keeps_skipped a0 a \<Longrightarrow> keeps_skipped a0 a'"
proof (induction cs arbitrary: res a)
  case Nil
  then show ?case by simp
next
  case (Cons c cs)
  obtain ok a1 where s: "saveApplication e c a = (ok, a1)"
    by (cases "saveApplication e c a")
  then have "keeps_skipped a0 a1"
    using Cons.prems(2) by (rule keeps_skipped_saveApplication)
  then show ?case
    using Cons.IH[of _ a1] Cons.prems(1) s by (cases ok) simp_all
qed

lemma keeps_skipped_uploadSQL:
  "uploadSQL e sql a = Some (r, a') \<Longrightarrow> keeps_skipped a0 a \<Longrightarrow> keeps_skipped a0 a'"
  using skipped_database_after[of "db a" e sql]
  by (auto simp: uploadSQL_def Let_def keeps_skipped_def split: if_splits option.splits)

lemma keeps_skipped_saveBatch:
  "saveBatch e cs a = Some (r, a') \<Longrightarrow> keeps_skipped a0 a \<Longrightarrow> keeps_skipped a0 a'"
  unfolding saveBatch_def
  by (auto split: if_splits option.splits prod.splits sum.splits)
     (blast intro: keeps_skipped_uploadSQL keeps_skipped_save_individually)+

lemma keeps_skipped_markAsNotFound:
  "markAsNotFound e num yr a = (r, a') \<Longrightarrow> keeps_skipped a0 a \<Longrightarrow> keeps_skipped a0 a'"
  unfolding markAsNotFound_def Let_def
  by (auto split: prod.splits sum.splits) (blast intro: keeps_skipped_executeSQL)+

lemma skipped_markAsNotFound:
  "skipped (db a) \<subseteq> skipped (db (snd (markAsNotFound e num yr a)))"
proof -
  have "markAsNotFound e num yr a =
      (fst (markAsNotFound e num yr a), snd (markAsNotFound e num yr a))"
    by simp
  then have "keeps_skipped a (snd (markAsNotFound e num yr a))"
    using keeps_skipped_refl by (rule keeps_skipped_markAsNotFound)
  then show ?thesis
    by (simp add: keeps_skipped_def)
qed

lemma skipped_saveApplication:
  "skipped (db a) \<subseteq> skipped (db (snd (saveApplication e data a)))"
proof -
  have "saveApplication e data a =
      (fst (saveApplication e data a), snd (saveApplication e data a))"
    by simp
  then have "keeps_skipped a (snd (saveApplication e data a))"
    using keeps_skipped_refl by (rule keeps_skipped_saveApplication)
  then show ?thesis
    by (simp add: keeps_skipped_def)
qed

lemma skipped_saveBatch:
  "saveBatch e cs a = Some (r, a') \<Longrightarrow> skipped (db a) \<subseteq> skipped (db a')"
  using keeps_skipped_saveBatch[OF _ keeps_skipped_refl] by (simp add: keeps_skipped_def)

subsection \<open>What the statements of the adapter do to a case\<close>

lemma executeSQL_Inr:
  "executeSQL e sql a = (Inr x, a') \<Longrightarrow> plain_command sql \<Longrightarrow>
   exec_command e sql (db a) = (db a', Inr x)"
  by (auto simp: executeSQL_def Let_def shell_plain_command
        split: if_splits prod.splits sum.splits)

lemma plain_update_not_found: "shell_plain n \<Longrightarrow> plain_command [UpdateNotFound n]"
  by (simp add: plain_command_def)

lemma markAsNotFound_success:
  "markAsNotFound e num yr a = (True, a') \<Longrightarrow> shell_plain (num @ ''/'' @ yr) \<Longrightarrow>
   db a' = update_not_found (num @ ''/'' @ yr) (db a)"
  using plain_update_not_found[of "num @ ''/'' @ yr"]
  by (auto simp: markAsNotFound_def Let_def split: prod.splits sum.splits dest!: executeSQL_Inr)

lemma filter_map_number:
  assumes "\<And>r. application_number (g r) = application_number r"
  shows "filter (\<lambda>r. application_number r = n)
           (map (\<lambda>r. if application_number r = n then g r else r) xs) =
         map g (filter (\<lambda>r. application_number r = n) xs)"
  by (induction xs) (simp_all add: assms)

lemma rows_of_update_not_found:
  "rows_of (update_not_found n d) n = map update_not_found_row (rows_of d n)"
  unfolding rows_of_def update_not_found_def
  by (simp add: filter_map_number update_not_found_row_def)

lemma list_ex_rows_of:
  "list_ex (\<lambda>r. application_number r = n) (applications d) \<longleftrightarrow> rows_of d n \<noteq> []"
  by (auto simp: rows_of_def list_ex_iff filter_empty_conv)

lemma rows_of_upsert:
  "rows_of (upsert_application e v d) (v_application_number v) =
     (if rows_of d (v_application_number v) \<noteq> []
      then map (on_conflict_update v (resolve_representative d (v_representative v)))
             (rows_of d (v_application_number v))
      else [inserted_application e v (resolve_representative d (v_representative v))
              (fresh_id (map app_id (applications d)))])"
proof (cases "rows_of d (v_application_number v) \<noteq> []")
  case True
  then show ?thesis
    unfolding upsert_application_def Let_def list_ex_rows_of
    by (simp add: rows_of_def filter_map_number on_conflict_update_def)
next
  case False
  then show ?thesis
    unfolding upsert_application_def Let_def list_ex_rows_of
    by (simp add: rows_of_def inserted_application_def)
qed

lemma rows_of_upsert_other:
  "n \<noteq> v_application_number v \<Longrightarrow> rows_of (upsert_application e v d) n = rows_of d n"
proof -
  assume n: "n \<noteq> v_application_number v"
  have "filter (\<lambda>r. application_number r = n)
          (map (\<lambda>r. if application_number r = v_application_number v
                    then on_conflict_update v rep r else r) xs) =
        filter (\<lambda>r. application_number r = n) xs" for rep xs
    using n by (induction xs) (auto simp: on_conflict_update_def)
  then show ?thesis
    using n by (simp add: rows_of_def upsert_application_def Let_def inserted_application_def)
qed

lemma rows_of_update_not_found_other:
  "m \<noteq> n \<Longrightarrow> rows_of (update_not_found m d) n = rows_of d n"
proof -
  assume mn: "m \<noteq> n"
  have "filter (\<lambda>r. application_number r = n)
          (map (\<lambda>r. if application_number r = m then update_not_found_row r else r) xs) =
        filter (\<lambda>r. application_number r = n) xs" for xs
    using mn by (induction xs) (auto simp: update_not_found_row_def)
  then show ?thesis
    by (simp add: rows_of_def update_not_found_def)
qed

text \<open>
  Whatever statement the database runs, the rows a case had before it keep their skip
  flag, except that the \<open>UPDATE\<close> of a mark on that case sets the flag when the counter
  it writes is 60 or more.
\<close>

lemma flag_set_only_by_mark:
  assumes "exec_statement e st d = Inr (d', x)"
  shows "map skip_scraping (take (length (rows_of d n)) (rows_of d' n)) =
     map (\<lambda>r. skip_scraping r \<or> (st = UpdateNotFound n \<and> 60 \<le> not_found_count r + 1))
       (rows_of d n)"
proof (cases st)
  case (InsertApplicationOnConflictUpdate v)
  then have d': "d' = upsert_application e v d" using assms by simp
  show ?thesis
  proof (cases "n = v_application_number v")
    case True
    then show ?thesis
      unfolding d' using rows_of_upsert[of e v d] InsertApplicationOnConflictUpdate
      by (simp add: on_conflict_update_def o_def)
  next
    case False
    then show ?thesis
      unfolding d' using InsertApplicationOnConflictUpdate by (simp add: rows_of_upsert_other)
  qed
next
  case (UpdateNotFound m)
  then have d': "d' = update_not_found m d" using assms by simp
  show ?thesis
  proof (cases "m = n")
    case True
    then show ?thesis
      unfolding d' using UpdateNotFound
      by (simp add: rows_of_update_not_found update_not_found_row_def o_def)
  next
    case False
    then show ?thesis
      unfolding d' using UpdateNotFound by (simp add: rows_of_update_not_found_other)
  qed
qed (use assms in \<open>auto simp: rows_of_def applications_fold_representatives
       applications_delete_events split: if_splits\<close>)

lemma representatives_upsert: "representatives (upsert_application e v d) = representatives d"
  by (simp add: upsert_application_def Let_def)

lemma representatives_delete_events: "representatives (delete_events ref d) = representatives d"
  by (simp add: delete_events_def split: option.splits)

lemma representatives_events_replaced:
  "representatives (events_replaced appId evs d) = representatives d"
  by (simp add: events_replaced_def representatives_delete_events)

lemma lookup_representative_cong:
  "representatives d = representatives d' \<Longrightarrow>
   lookup_representative_id d n = lookup_representative_id d' n"
  by (simp add: lookup_representative_id_def)

lemma executeSQL_select_representative:
  assumes "executeSQL e [SelectRepresentativeId n] a = (r, a')" "shell_plain n"
  shows "db a' = db a" and "r = Inr (Some k) \<Longrightarrow> lookup_representative_id (db a) n = Some k"
proof -
  have p: "shell e [SelectRepresentativeId n] = Some [SelectRepresentativeId n]"
    using assms(2) by (simp add: shell_def plain_command_def)
  show "db a' = db a"
    using assms(1) by (auto simp: executeSQL_def Let_def p split: if_splits)
  show "r = Inr (Some k) \<Longrightarrow> lookup_representative_id (db a) n = Some k"
    using assms(1) by (auto simp: executeSQL_def Let_def p split: if_splits)
qed

lemma executeSQL_insert_representatives:
  assumes "executeSQL e [InsertOrIgnoreRepresentatives ns] a = (r, a')" "list_all shell_plain ns"
  shows "applications (db a') = applications (db a) \<and> events (db a') = events (db a)"
proof -
  have p: "shell e [InsertOrIgnoreRepresentatives ns] = Some [InsertOrIgnoreRepresentatives ns]"
    using assms(2) by (simp add: shell_def plain_command_def)
  show ?thesis
    using assms(1)
    by (auto simp: executeSQL_def Let_def p applications_fold_representatives
          events_fold_representatives split: if_splits)
qed

lemma findOrCreateRepresentative_Inr:
  assumes "findOrCreateRepresentative e name a = (Inr rid, a')"
  shows "\<exists>nm. name = Some nm \<and> nm \<noteq> [] \<and>
     (repCache a nm = Some rid \<and> a' = a \<or>
      repCache a nm = None \<and>
      (\<exists>a1. executeSQL e [SelectRepresentativeId nm] a = (Inr (Some rid), a1) \<and>
            a' = a1\<lparr>repCache := (repCache a1)(nm \<mapsto> rid)\<rparr>) \<or>
      repCache a nm = None \<and>
      (\<exists>r1 a1 x a2 a3. executeSQL e [SelectRepresentativeId nm] a = (r1, a1) \<and>
            executeSQL e [InsertOrIgnoreRepresentatives [nm]] a1 = (Inr x, a2) \<and>
            executeSQL e [SelectRepresentativeId nm] a2 = (Inr (Some rid), a3) \<and>
            a' = a3\<lparr>repCache := (repCache a3)(nm \<mapsto> rid)\<rparr>))"
  using assms unfolding findOrCreateRepresentative_def
  by (simp split: option.splits if_splits prod.splits sum.splits)

lemma findOrCreateRepresentative_tables:
  assumes "findOrCreateRepresentative e name a = (Inr rid, a')" "plain_text name"
  shows "applications (db a') = applications (db a) \<and> events (db a') = events (db a)"
proof -
  obtain nm where nm: "name = Some nm" and c:
     "repCache a nm = Some rid \<and> a' = a \<or>
      repCache a nm = None \<and>
      (\<exists>a1. executeSQL e [SelectRepresentativeId nm] a = (Inr (Some rid), a1) \<and>
            a' = a1\<lparr>repCache := (repCache a1)(nm \<mapsto> rid)\<rparr>) \<or>
      repCache a nm = None \<and>
      (\<exists>r1 a1 x a2 a3. executeSQL e [SelectRepresentativeId nm] a = (r1, a1) \<and>
            executeSQL e [InsertOrIgnoreRepresentatives [nm]] a1 = (Inr x, a2) \<and>
            executeSQL e [SelectRepresentativeId nm] a2 = (Inr (Some rid), a3) \<and>
            a' = a3\<lparr>repCache := (repCache a3)(nm \<mapsto> rid)\<rparr>)"
    using findOrCreateRepresentative_Inr[OF assms(1)] by blast
  have p: "shell_plain nm" "list_all shell_plain [nm]"
    using assms(2) nm by (simp_all add: plain_text_def)
  show ?thesis
    using c
    by (auto dest!: executeSQL_select_representative(1)[OF _ p(1)]
          executeSQL_insert_representatives[OF _ p(2)])
qed

lemma findOrCreateRepresentative_id:
  assumes "findOrCreateRepresentative e (Some nm) a = (Inr rid, a')" "shell_plain nm"
  shows "repCache a nm = Some rid \<or>
     repCache a nm = None \<and> lookup_representative_id (db a') nm = Some rid"
proof -
  have c:
     "repCache a nm = Some rid \<and> a' = a \<or>
      repCache a nm = None \<and>
      (\<exists>a1. executeSQL e [SelectRepresentativeId nm] a = (Inr (Some rid), a1) \<and>
            a' = a1\<lparr>repCache := (repCache a1)(nm \<mapsto> rid)\<rparr>) \<or>
      repCache a nm = None \<and>
      (\<exists>r1 a1 x a2 a3. executeSQL e [SelectRepresentativeId nm] a = (r1, a1) \<and>
            executeSQL e [InsertOrIgnoreRepresentatives [nm]] a1 = (Inr x, a2) \<and>
            executeSQL e [SelectRepresentativeId nm] a2 = (Inr (Some rid), a3) \<and>
            a' = a3\<lparr>repCache := (repCache a3)(nm \<mapsto> rid)\<rparr>)"
    using findOrCreateRepresentative_Inr[OF assms(1)] by auto
  have sel: "lookup_representative_id (db a1) nm = Some rid"
    if "executeSQL e [SelectRepresentativeId nm] a0 = (Inr (Some rid), a1)" for a0 a1
    using executeSQL_select_representative[OF that assms(2)] by simp
  show ?thesis
    using c by (auto dest: sel)
qed

lemma eventValues_Nil: "eventValues ref evs = [] \<longleftrightarrow> evs = []"
  by (cases evs) (simp_all add: eventValues_def enumerate_eq_zip)

lemma exec_eventsSQL:
  "exec_command e (eventsSQL appId data) d = (d', Inr x) \<Longrightarrow>
   majorEventsList data \<noteq> [] \<and> d' = events_replaced appId (majorEventsList data) d"
  by (auto simp: eventsSQL_def events_replaced_def eventValues_Nil split: if_splits)

lemma saveApplication_True:
  "saveApplication e data a = (True, a') \<Longrightarrow>
   \<exists>rid a1 ctry x2 a2 appId a3 x4 a4.
     (if nonblank (representant data)
      then (case findOrCreateRepresentative e (representant data) a of
              (Inl err, a1) \<Rightarrow> (Inl err, a1)
            | (Inr rid, a1) \<Rightarrow> (Inr (Some rid), a1))
      else (Inr None, a)) = (Inr rid, a1) \<and>
     extractCountry (applicationTitle data) = Inr ctry \<and>
     executeSQL e [appSQL data rid ctry] a1 = (Inr x2, a2) \<and>
     executeSQL e [SelectApplicationId (template (applicationNumber data))] a2
       = (Inr (Some appId), a3) \<and>
     executeSQL e (eventsSQL appId data) a3 = (Inr x4, a4) \<and>
     a' = flushCacheIfNeeded a4"
  unfolding saveApplication_def
  by (simp split: prod.splits sum.splits option.splits if_splits)

text \<open>
  The database after a \<open>saveApplication\<close> that returns \<open>true\<close> for a plain record: the
  upsert and the replacement of the events, on a database \<open>dr\<close> that differs from the one
  before in the representatives only.
\<close>

lemma saveApplication_success:
  assumes "saveApplication e data a = (True, a')" "plain_record data"
  shows "\<exists>rid ctry dr appId.
      extractCountry (applicationTitle data) = Inr ctry \<and>
      resolve_representative dr (v_representative (appValues data rid ctry)) =
        saved_representative data a (db a') \<and>
      applications dr = applications (db a) \<and> events dr = events (db a) \<and>
      lookup_application_id (upsert_application e (appValues data rid ctry) dr)
        (template (applicationNumber data)) = Some appId \<and>
      majorEventsList data \<noteq> [] \<and>
      db a' = events_replaced appId (majorEventsList data)
                (upsert_application e (appValues data rid ctry) dr)"
proof -
  obtain rid a1 ctry x2 a2 appId a3 x4 a4 where
    rep: "(if nonblank (representant data)
      then (case findOrCreateRepresentative e (representant data) a of
              (Inl err, a1) \<Rightarrow> (Inl err, a1)
            | (Inr rid, a1) \<Rightarrow> (Inr (Some rid), a1))
      else (Inr None, a)) = (Inr rid, a1)"
    and ctry: "extractCountry (applicationTitle data) = Inr ctry"
    and u: "executeSQL e [appSQL data rid ctry] a1 = (Inr x2, a2)"
    and sel: "executeSQL e [SelectApplicationId (template (applicationNumber data))] a2
       = (Inr (Some appId), a3)"
    and ev: "executeSQL e (eventsSQL appId data) a3 = (Inr x4, a4)"
    and a': "a' = flushCacheIfNeeded a4"
    using saveApplication_True[OF assms(1)] by blast
  have pn: "plain_text (representant data)"
    using assms(2) by (simp add: plain_record_def)
  have d2: "db a2 = upsert_application e (appValues data rid ctry) (db a1)"
    using executeSQL_Inr[OF u plain_appSQL[OF assms(2) ctry]] by (simp add: appSQL_def)
  have d3: "db a3 = db a2"
    "lookup_application_id (db a2) (template (applicationNumber data)) = Some appId"
    using executeSQL_Inr[OF sel plain_select_application[OF assms(2)]] by auto
  have d4: "majorEventsList data \<noteq> []"
    "db a4 = events_replaced appId (majorEventsList data) (db a3)"
    using exec_eventsSQL[OF executeSQL_Inr[OF ev plain_eventsSQL[OF assms(2)]]] by simp_all
  have final: "db a' = events_replaced appId (majorEventsList data)
                (upsert_application e (appValues data rid ctry) (db a1))"
    using d2 d3 d4 a' by (simp add: db_flushCacheIfNeeded)
  have reps: "lookup_representative_id (db a') n = lookup_representative_id (db a1) n" for n
    unfolding final
    by (rule lookup_representative_cong)
       (simp add: representatives_events_replaced representatives_upsert)
  have tabs_written: "applications (db a1) = applications (db a) \<and> events (db a1) = events (db a) \<and>
      resolve_representative (db a1) (v_representative (appValues data rid ctry)) =
        saved_representative data a (db a')"
  proof (cases "nonblank (representant data)")
    case False
    then show ?thesis
      using rep by (auto simp: appValues_def saved_representative_def split: option.splits)
  next
    case True
    then obtain nm where nm: "representant data = Some nm"
      by (cases "representant data") auto
    obtain k where f: "findOrCreateRepresentative e (Some nm) a = (Inr k, a1)" and k: "rid = Some k"
      using rep True nm by (auto split: prod.splits sum.splits)
    have p: "shell_plain nm"
      using pn nm by (simp add: plain_text_def)
    have t: "applications (db a1) = applications (db a) \<and> events (db a1) = events (db a)"
      using findOrCreateRepresentative_tables[OF f] pn nm by simp
    have "repCache a nm = Some k \<or>
        repCache a nm = None \<and> lookup_representative_id (db a1) nm = Some k"
      using findOrCreateRepresentative_id[OF f p] .
    then have "resolve_representative (db a1) (v_representative (appValues data rid ctry)) =
        saved_representative data a (db a')"
      using True nm k
      by (auto simp: appValues_def saved_representative_def nonzero_def reps)
    then show ?thesis
      using t by simp
  qed
  show ?thesis
    using ctry tabs_written d3(2) d4(1) final unfolding d2 by blast
qed

lemma applications_events_replaced: "applications (events_replaced appId evs d) = applications d"
  by (simp add: events_replaced_def applications_delete_events)

lemma rows_of_events_replaced: "rows_of (events_replaced appId evs d) n = rows_of d n"
  by (simp add: rows_of_def applications_events_replaced)

lemma rows_of_cong: "applications d = applications d' \<Longrightarrow> rows_of d n = rows_of d' n"
  by (simp add: rows_of_def)

lemma fetched_values_on_conflict:
  "extractCountry (applicationTitle data) = Inr ctry \<Longrightarrow>
   fetched_values data (on_conflict_update (appValues data rid ctry) rep r)"
  by (simp add: fetched_values_def on_conflict_update_def appValues_def)

lemma fetched_values_on_conflict_batch:
  "extractCountry (applicationTitle data) = Inr ctry \<Longrightarrow>
   fetched_values data (on_conflict_update (batchAppValues data ctry) rep r)"
  by (simp add: fetched_values_def on_conflict_update_def batchAppValues_def)

lemma fetched_values_inserted_batch:
  "extractCountry (applicationTitle data) = Inr ctry \<Longrightarrow>
   fetched_values data (inserted_application e (batchAppValues data ctry) rep n)"
  by (simp add: fetched_values_def inserted_application_def batchAppValues_def)

lemma saveApplication_rows:
  assumes "saveApplication e data a = (True, a')" "plain_record data"
    and "rows_of (db a) (template (applicationNumber data)) \<noteq> []"
  shows "\<exists>rid ctry. extractCountry (applicationTitle data) = Inr ctry \<and>
     rows_of (db a') (template (applicationNumber data)) =
       map (on_conflict_update (appValues data rid ctry) (saved_representative data a (db a')))
         (rows_of (db a) (template (applicationNumber data)))"
proof -
  let ?n = "template (applicationNumber data)"
  obtain rid ctry dr appId where
    c: "extractCountry (applicationTitle data) = Inr ctry"
    and w: "resolve_representative dr (v_representative (appValues data rid ctry)) =
        saved_representative data a (db a')"
    and t: "applications dr = applications (db a)"
    and d: "db a' = events_replaced appId (majorEventsList data)
                (upsert_application e (appValues data rid ctry) dr)"
    using saveApplication_success[OF assms(1,2)] by blast
  have n: "v_application_number (appValues data rid ctry) = ?n"
    by (simp add: appValues_def)
  have r: "rows_of dr ?n = rows_of (db a) ?n"
    using t by (rule rows_of_cong)
  have "rows_of (db a') ?n = rows_of (upsert_application e (appValues data rid ctry) dr) ?n"
    by (subst d) (simp add: rows_of_events_replaced)
  also have "\<dots> = map (on_conflict_update (appValues data rid ctry)
                 (saved_representative data a (db a')))
               (rows_of (db a) ?n)"
    using rows_of_upsert[of e "appValues data rid ctry" dr] assms(3) unfolding n r w by simp
  finally show ?thesis
    using c by blast
qed

lemma not_found_counter_mark:
  assumes "markAsNotFound e num yr a = (True, a')" "shell_plain (num @ ''/'' @ yr)"
  shows "map not_found_count (rows_of (db a') (num @ ''/'' @ yr)) =
       map (\<lambda>r. not_found_count r + 1) (rows_of (db a) (num @ ''/'' @ yr))"
    and "map skip_scraping (rows_of (db a') (num @ ''/'' @ yr)) =
       map (\<lambda>r. skip_scraping r \<or> 60 \<le> not_found_count r + 1) (rows_of (db a) (num @ ''/'' @ yr))"
  unfolding markAsNotFound_success[OF assms] rows_of_update_not_found
  by (simp_all add: update_not_found_row_def)

subsection \<open>The skip flag\<close>

text \<open>
  C4. A not-found mark that succeeds sets the skip flag of the case when the counter it
  writes is 60 or more and leaves the flag alone otherwise; so for a case whose flag is
  not set and whose counter is below 60, the flag is set by exactly the mark that brings
  the counter to 60. A \<open>saveApplication\<close> that succeeds on a persisted case leaves its
  flag as it is. (Both for text that the shell leaves as it is: the mark and the save
  reach the case through \<open>executeSQL\<close>.) And whatever a mark, a \<open>saveApplication\<close> or a
  \<open>saveBatch\<close> does, succeeding or failing, and whatever the shell makes of their
  commands, every application number whose flag was set before has it set afterwards;
  and whatever statement the database runs, the rows a case had keep their flag, except
  that the \<open>UPDATE\<close> of a mark on that case sets it when the counter it writes is 60 or
  more.
\<close>

theorem skip_flag_threshold:
  "(shell_plain (num @ ''/'' @ yr) \<longrightarrow> markAsNotFound e num yr a = (True, a') \<longrightarrow>
      map skip_scraping (rows_of (db a') (num @ ''/'' @ yr)) =
        map (\<lambda>r. skip_scraping r \<or> 60 \<le> not_found_count r + 1)
          (rows_of (db a) (num @ ''/'' @ yr)) \<and>
      (list_all (\<lambda>r. \<not> skip_scraping r \<and> not_found_count r < 60)
         (rows_of (db a) (num @ ''/'' @ yr)) \<longrightarrow>
       map skip_scraping (rows_of (db a') (num @ ''/'' @ yr)) =
         map (\<lambda>r. not_found_count r = 60) (rows_of (db a') (num @ ''/'' @ yr)))) \<and>
   (plain_record data \<longrightarrow> saveApplication e data a = (True, a'') \<longrightarrow>
    rows_of (db a) (template (applicationNumber data)) \<noteq> [] \<longrightarrow>
      map skip_scraping (rows_of (db a'') (template (applicationNumber data))) =
        map skip_scraping (rows_of (db a) (template (applicationNumber data)))) \<and>
   skipped (db a) \<subseteq> skipped (db (snd (markAsNotFound e num yr a))) \<and>
   skipped (db a) \<subseteq> skipped (db (snd (saveApplication e data a))) \<and>
   (\<forall>res b. saveBatch e cs a = Some (res, b) \<longrightarrow> skipped (db a) \<subseteq> skipped (db b)) \<and>
   (\<forall>st d d' x n. exec_statement e st d = Inr (d', x) \<longrightarrow>
      map skip_scraping (take (length (rows_of d n)) (rows_of d' n)) =
        map (\<lambda>r. skip_scraping r \<or> (st = UpdateNotFound n \<and> 60 \<le> not_found_count r + 1))
          (rows_of d n))"
proof (intro conjI impI allI)
  let ?n = "num @ ''/'' @ yr"
  assume p: "shell_plain ?n" and m: "markAsNotFound e num yr a = (True, a')"
  show f: "map skip_scraping (rows_of (db a') ?n) =
        map (\<lambda>r. skip_scraping r \<or> 60 \<le> not_found_count r + 1) (rows_of (db a) ?n)"
    using m p by (rule not_found_counter_mark)
  assume below: "list_all (\<lambda>r. \<not> skip_scraping r \<and> not_found_count r < 60) (rows_of (db a) ?n)"
  have "map (\<lambda>r. not_found_count r = 60) (rows_of (db a') ?n) =
        map (\<lambda>r. not_found_count r + 1 = 60) (rows_of (db a) ?n)"
    unfolding markAsNotFound_success[OF m p] rows_of_update_not_found
    by (simp add: update_not_found_row_def)
  also have "\<dots> = map (\<lambda>r. skip_scraping r \<or> 60 \<le> not_found_count r + 1) (rows_of (db a) ?n)"
    using below by (auto simp: list_all_iff)
  finally show "map skip_scraping (rows_of (db a') ?n) =
         map (\<lambda>r. not_found_count r = 60) (rows_of (db a') ?n)"
    using f by simp
next
  let ?n = "template (applicationNumber data)"
  assume p: "plain_record data" and s: "saveApplication e data a = (True, a'')"
    and r: "rows_of (db a) ?n \<noteq> []"
  obtain rid ctry rep where
    "rows_of (db a'') ?n =
       map (on_conflict_update (appValues data rid ctry) rep) (rows_of (db a) ?n)"
    using saveApplication_rows[OF s p r] by blast
  then show "map skip_scraping (rows_of (db a'') ?n) = map skip_scraping (rows_of (db a) ?n)"
    by (simp add: on_conflict_update_def)
next
  fix res b assume "saveBatch e cs a = Some (res, b)"
  then show "skipped (db a) \<subseteq> skipped (db b)"
    by (rule skipped_saveBatch)
next
  fix st d d' x n assume "exec_statement e st d = Inr (d', x)"
  then show "map skip_scraping (take (length (rows_of d n)) (rows_of d' n)) =
        map (\<lambda>r. skip_scraping r \<or> (st = UpdateNotFound n \<and> 60 \<le> not_found_count r + 1))
          (rows_of d n)"
    by (rule flag_set_only_by_mark)
qed (rule skipped_markAsNotFound skipped_saveApplication)+

text \<open>
  The case \<open>5/19\<close> with a counter of 59: the next mark brings it to 60 and sets the flag
  (a mark from 0 does not), and the refetch that follows, single or in a batch, resets
  the counter and keeps the flag.
\<close>

theorem skip_flag_threshold_witness:
  "shell_plain (''5'' @ ''/'' @ ''19'') \<and> plain_record sample_record \<and>
   fst (markAsNotFound (sample_env site_empty True) ''5'' ''19'' adapter_at_59) = True \<and>
   rows_of (db adapter_at_59) ''5/19'' = [sample_row\<lparr>not_found_count := 59\<rparr>] \<and>
   list_all (\<lambda>r. \<not> skip_scraping r \<and> not_found_count r < 60)
     (rows_of (db adapter_at_59) ''5/19'') \<and>
   map skip_scraping (rows_of (db (snd
     (markAsNotFound (sample_env site_empty True) ''5'' ''19'' adapter_at_59))) ''5/19'') = [True] \<and>
   map not_found_count (rows_of (db (snd
     (markAsNotFound (sample_env site_empty True) ''5'' ''19'' adapter_at_59))) ''5/19'') = [60] \<and>
   map skip_scraping (rows_of (db (snd
     (markAsNotFound (sample_env site_empty True) ''5'' ''19'' sample_adapter))) ''5/19'') = [False] \<and>
   fst (saveApplication (sample_env site_empty True) sample_record
     (snd (markAsNotFound (sample_env site_empty True) ''5'' ''19'' adapter_at_59))) = True \<and>
   map skip_scraping (rows_of (db (snd (saveApplication (sample_env site_empty True) sample_record
     (snd (markAsNotFound (sample_env site_empty True) ''5'' ''19'' adapter_at_59))))) ''5/19'')
     = [True] \<and>
   map not_found_count (rows_of (db (snd (saveApplication (sample_env site_empty True)
     sample_record
     (snd (markAsNotFound (sample_env site_empty True) ''5'' ''19'' adapter_at_59))))) ''5/19'')
     = [0] \<and>
   (\<exists>res b. saveBatch (sample_env site_empty True) [sample_record]
       (snd (markAsNotFound (sample_env site_empty True) ''5'' ''19'' adapter_at_59)) = Some (res, b) \<and>
     ''5/19'' \<in> skipped (db (snd (markAsNotFound (sample_env site_empty True) ''5'' ''19''
        adapter_at_59))) \<and>
     ''5/19'' \<in> skipped (db b) \<and>
     map not_found_count (rows_of (db b) ''5/19'') = [0]) \<and>
   exec_statement (sample_env site_empty True) (UpdateNotFound ''5/19'') (db adapter_at_59) =
     Inr (update_not_found ''5/19'' (db adapter_at_59), None) \<and>
   map skip_scraping (take 1 (rows_of (update_not_found ''5/19'' (db adapter_at_59)) ''5/19'')) =
     [True]"
proof -
  let ?e = "sample_env site_empty True"
  define a1 where "a1 = snd (markAsNotFound ?e ''5'' ''19'' adapter_at_59)"
  define a2 where "a2 = snd (saveApplication ?e sample_record a1)"
  have n: "template (applicationNumber sample_record) = ''5/19''"
    by (simp add: sample_record_def)
  have pn: "shell_plain (''5'' @ ''/'' @ ''19'')"
    by (simp add: shell_plain_def shell_special_def)
  have pr: "plain_record sample_record"
    by (simp add: plain_record_def plain_text_def shell_plain_def shell_special_def
          sample_record_def)
  have m1: "fst (markAsNotFound ?e ''5'' ''19'' adapter_at_59) = True"
    by code_simp
  then have m: "markAsNotFound ?e ''5'' ''19'' adapter_at_59 = (True, a1)"
    unfolding a1_def by (metis prod.collapse)
  have rr: "rows_of (db adapter_at_59) ''5/19'' = [sample_row\<lparr>not_found_count := 59\<rparr>]"
    by code_simp
  have below: "list_all (\<lambda>r. \<not> skip_scraping r \<and> not_found_count r < 60)
      (rows_of (db adapter_at_59) ''5/19'')"
    by (simp add: rr sample_row_def)
  have c1: "map not_found_count (rows_of (db a1) ''5/19'') = [60]"
    unfolding a1_def by code_simp
  have nn: "''5'' @ ''/'' @ ''19'' = ''5/19''"
    by simp
  have "map skip_scraping (rows_of (db a1) ''5/19'') =
      map (\<lambda>r. not_found_count r = 60) (rows_of (db a1) ''5/19'')"
    using skip_flag_threshold[where e = ?e and num = "''5''" and yr = "''19''"
        and a = adapter_at_59 and a' = a1] m below pn
    unfolding nn by blast
  also have "\<dots> = map (\<lambda>c. c = 60) (map not_found_count (rows_of (db a1) ''5/19''))"
    by (simp add: o_def)
  finally have k1: "map skip_scraping (rows_of (db a1) ''5/19'') = [True]"
    unfolding c1 by simp
  have k0: "map skip_scraping (rows_of (db (snd (markAsNotFound ?e ''5'' ''19'' sample_adapter)))
      ''5/19'') = [False]"
    by code_simp
  have s1: "fst (saveApplication ?e sample_record a1) = True"
    unfolding a1_def by code_simp
  then have s: "saveApplication ?e sample_record a1 = (True, a2)"
    unfolding a2_def by (metis prod.collapse)
  have ne: "rows_of (db a1) (template (applicationNumber sample_record)) \<noteq> []"
    using k1 unfolding n by auto
  have k2: "map skip_scraping (rows_of (db a2) ''5/19'') = [True]"
    using skip_flag_threshold[where e = ?e and data = sample_record and a = a1 and a'' = a2]
      s ne k1 pr unfolding n by simp
  have c2: "map not_found_count (rows_of (db a2) ''5/19'') = [0]"
    unfolding a2_def a1_def by code_simp
  have "map_option (\<lambda>p. map not_found_count (rows_of (db (snd p)) ''5/19''))
      (saveBatch ?e [sample_record] a1) = Some [0]"
    unfolding a1_def by code_simp
  then obtain res b where sb: "saveBatch ?e [sample_record] a1 = Some (res, b)"
    and c3: "map not_found_count (rows_of (db b) ''5/19'') = [0]"
    by auto
  have in1: "''5/19'' \<in> skipped (db a1)"
    unfolding a1_def by code_simp
  have "skipped (db a1) \<subseteq> skipped (db b)"
    using skip_flag_threshold[where e = ?e and a = a1 and cs = "[sample_record]"] sb by blast
  then have in2: "''5/19'' \<in> skipped (db b)"
    using in1 by blast
  have ex: "\<exists>res b. saveBatch ?e [sample_record] a1 = Some (res, b) \<and>
     ''5/19'' \<in> skipped (db a1) \<and> ''5/19'' \<in> skipped (db b) \<and>
     map not_found_count (rows_of (db b) ''5/19'') = [0]"
    by (intro exI[of _ res] exI[of _ b] conjI sb in1 in2 c3)
  have x: "exec_statement ?e (UpdateNotFound ''5/19'') (db adapter_at_59) =
     Inr (update_not_found ''5/19'' (db adapter_at_59), None)"
    by simp
  have "map skip_scraping (take (length (rows_of (db adapter_at_59) ''5/19''))
        (rows_of (update_not_found ''5/19'' (db adapter_at_59)) ''5/19'')) =
      map (\<lambda>r. skip_scraping r \<or>
            (UpdateNotFound ''5/19'' = UpdateNotFound ''5/19'' \<and> 60 \<le> not_found_count r + 1))
        (rows_of (db adapter_at_59) ''5/19'')"
    using skip_flag_threshold[where e = ?e] x by blast
  then have t: "map skip_scraping
      (take 1 (rows_of (update_not_found ''5/19'' (db adapter_at_59)) ''5/19'')) = [True]"
    unfolding rr by (simp add: sample_row_def)
  show ?thesis
    using pn pr m1 rr below k1 c1 k0 s1 k2 c2 ex x t unfolding a1_def a2_def
    by (intro conjI) assumption+
qed

subsection \<open>The events of a case\<close>

lemma inserted_fetched_events:
  "resolve_application d ref = Some n \<Longrightarrow>
   map (inserted_event d) (eventValues ref evs) = fetched_events n evs"
  by (auto simp: eventValues_def fetched_events_def inserted_event_def)

lemma length_fetched_events: "length (fetched_events n evs) = length evs"
  by (simp add: fetched_events_def)

lemma application_id_fetched_events:
  "ev \<in> set (fetched_events n evs) \<Longrightarrow> application_id ev = Some n"
  by (auto simp: fetched_events_def)

lemma is_last_event_fetched_events:
  "i < length evs \<Longrightarrow> is_last_event (fetched_events n evs ! i) = (Suc i = length evs)"
  by (simp add: fetched_events_def nth_enumerate_eq)

lemma last_flag_only_on_final:
  "evs \<noteq> [] \<Longrightarrow>
   map is_last_event (fetched_events n evs) = replicate (length evs - 1) False @ [True]"
  by (rule nth_equalityI)
     (auto simp: length_fetched_events is_last_event_fetched_events nth_append)

lemma events_of_filter_other:
  "filter (\<lambda>ev. application_id ev = Some n) (filter (\<lambda>ev. application_id ev \<noteq> Some n) xs) = []"
  by (induction xs) auto

lemma events_of_events_replaced:
  "events_of (events_replaced n evs d) n = fetched_events n evs"
proof -
  have "filter (\<lambda>ev. application_id ev = Some n) (fetched_events n evs) = fetched_events n evs"
    by (rule filter_True) (simp add: application_id_fetched_events)
  then show ?thesis
    by (simp add: events_of_def events_replaced_def delete_events_def events_of_filter_other
          inserted_fetched_events)
qed

lemma lookup_application_id_cong:
  "applications d = applications d' \<Longrightarrow> lookup_application_id d n = lookup_application_id d' n"
  by (simp add: lookup_application_id_def)

lemma saveApplication_mirrors_events:
  assumes "saveApplication e data a = (True, a')" "plain_record data"
  shows "\<exists>appId. lookup_application_id (db a') (template (applicationNumber data)) = Some appId \<and>
           majorEventsList data \<noteq> [] \<and>
           events_of (db a') appId = fetched_events appId (majorEventsList data)"
proof -
  obtain rid ctry dr appId where
    l: "lookup_application_id (upsert_application e (appValues data rid ctry) dr)
        (template (applicationNumber data)) = Some appId"
    and ne: "majorEventsList data \<noteq> []"
    and d: "db a' = events_replaced appId (majorEventsList data)
                (upsert_application e (appValues data rid ctry) dr)"
    using saveApplication_success[OF assms] by blast
  have "lookup_application_id (db a') (template (applicationNumber data)) = Some appId"
    unfolding d using l
    by (simp add: lookup_application_id_def applications_events_replaced)
  then show ?thesis
    using ne unfolding d by (auto simp: events_of_events_replaced)
qed

subsection \<open>The batch script, statement by statement\<close>

lemma exec_command_append:
  "exec_command e xs d = (dm, Inr r) \<Longrightarrow> ys \<noteq> [] \<Longrightarrow>
   exec_command e (xs @ ys) d = exec_command e ys dm"
proof (induction xs arbitrary: d)
  case Nil
  then show ?case by simp
next
  case (Cons st sts)
  then show ?case
    by (cases "exec_statement e st d") (auto split: if_splits)
qed

lemma batchEventStatements_not_Nil: "batchEventStatements c \<noteq> []"
  by (simp add: batchEventStatements_def Let_def)

lemma exec_batchEventStatements:
  "exec_command e (batchEventStatements c) d = (batch_events_replaced c d, Inr None)"
  by (simp add: batchEventStatements_def batch_events_replaced_def Let_def eventValues_Nil)

lemma exec_event_statements:
  "exec_command e (concat (map batchEventStatements cs)) d =
     (fold batch_events_replaced cs d, Inr None)"
proof (induction cs arbitrary: d)
  case Nil
  then show ?case by simp
next
  case (Cons c cs)
  show ?case
  proof (cases "cs = []")
    case True
    then show ?thesis by (simp add: exec_batchEventStatements)
  next
    case False
    then have "concat (map batchEventStatements cs) \<noteq> []"
      by (cases cs) (simp_all add: batchEventStatements_not_Nil)
    then show ?thesis
      using exec_command_append[OF exec_batchEventStatements, of "concat (map batchEventStatements cs)" e c d]
      by (simp add: Cons.IH)
  qed
qed

lemma exec_upserts:
  "exec_command e (map InsertApplicationOnConflictUpdate vs) d =
     (fold (upsert_application e) vs d, Inr None)"
proof (induction vs arbitrary: d)
  case Nil
  then show ?case by simp
next
  case (Cons v vs)
  then show ?case by (cases "vs = []") simp_all
qed

lemma extractCountry_has_title:
  "extractCountry (applicationTitle c) =
     (if has_title c then Inr (country_of c) else Inl TypeError)"
  by (auto simp: extractCountry_def has_title_def country_of_def split: option.splits)

lemma batchStatements_titled:
  "batchStatements cs =
     (map (\<lambda>c. batchAppSQL c (country_of c)) (filter has_title cs),
      concat (map batchEventStatements (filter has_title cs)))"
  by (induction cs) (simp_all add: extractCountry_has_title)

lemma applications_batch_events_replaced:
  "applications (batch_events_replaced c d) = applications d"
  by (simp add: batch_events_replaced_def Let_def applications_delete_events)

lemma applications_fold_batch_events:
  "applications (fold batch_events_replaced cs d) = applications d"
  by (induction cs arbitrary: d) (simp_all add: applications_batch_events_replaced)

lemma filter_id_other:
  "m \<noteq> n \<Longrightarrow>
   filter (\<lambda>ev. application_id ev = Some n) (filter (\<lambda>ev. application_id ev \<noteq> Some m) xs) =
   filter (\<lambda>ev. application_id ev = Some n) xs"
  by (induction xs) auto

lemma events_of_batch_events_replaced:
  "events_of (batch_events_replaced c d) n =
     (if lookup_application_id d (template (applicationNumber c)) = Some n
      then fetched_events n (majorEventsList c)
      else events_of d n)"
proof (cases "lookup_application_id d (template (applicationNumber c))")
  case None
  then show ?thesis
    by (simp add: batch_events_replaced_def Let_def delete_events_def events_of_def
          eventValues_def inserted_event_def o_def split_beta)
next
  case (Some m)
  let ?ref = "AppByNumber (template (applicationNumber c))"
  have dd: "delete_events ?ref d = d\<lparr>events := filter (\<lambda>ev. application_id ev \<noteq> Some m) (events d)\<rparr>"
    using Some by (simp add: delete_events_def)
  have res: "resolve_application (delete_events ?ref d) ?ref = Some m"
    using Some by (simp add: lookup_application_id_def applications_delete_events)
  have ins: "map (inserted_event (delete_events ?ref d)) (eventValues ?ref (majorEventsList c)) =
      fetched_events m (majorEventsList c)"
    using res by (rule inserted_fetched_events)
  have ev: "events (batch_events_replaced c d) =
      filter (\<lambda>ev. application_id ev \<noteq> Some m) (events d) @ fetched_events m (majorEventsList c)"
    unfolding batch_events_replaced_def Let_def ins
    by (simp add: dd fetched_events_def)
  show ?thesis
  proof (cases "m = n")
    case True
    have "filter (\<lambda>ev. application_id ev = Some n) (fetched_events n (majorEventsList c)) =
        fetched_events n (majorEventsList c)"
      by (rule filter_True) (simp add: application_id_fetched_events)
    then show ?thesis
      using Some True by (simp add: events_of_def ev events_of_filter_other)
  next
    case False
    have "filter (\<lambda>ev. application_id ev = Some n) (fetched_events m (majorEventsList c)) = []"
      using False by (auto simp: filter_empty_conv dest: application_id_fetched_events)
    then show ?thesis
      using Some False by (auto simp: events_of_def ev intro: filter_cong)
  qed
qed

lemma events_of_fold_others:
  assumes "\<forall>c \<in> set cs. lookup_application_id d (template (applicationNumber c)) \<noteq> Some n"
  shows "events_of (fold batch_events_replaced cs d) n = events_of d n"
  using assms
proof (induction cs arbitrary: d)
  case Nil
  then show ?case by simp
next
  case (Cons c cs)
  have same: "lookup_application_id (batch_events_replaced c d) k = lookup_application_id d k" for k
    by (simp add: lookup_application_id_def applications_batch_events_replaced)
  have "events_of (fold batch_events_replaced cs (batch_events_replaced c d)) n =
        events_of (batch_events_replaced c d) n"
    using Cons.prems by (intro Cons.IH) (simp add: same)
  then show ?case
    using Cons.prems by (simp add: events_of_batch_events_replaced)
qed

lemma events_of_fold_last:
  assumes "lookup_application_id d (template (applicationNumber c)) = Some n"
    and "\<forall>c' \<in> set post. lookup_application_id d (template (applicationNumber c')) \<noteq> Some n"
  shows "events_of (fold batch_events_replaced (pre @ c # post) d) n =
           fetched_events n (majorEventsList c)"
proof -
  let ?dp = "fold batch_events_replaced pre d"
  have same: "lookup_application_id (fold batch_events_replaced xs d') k =
      lookup_application_id d' k" for xs d' k
    by (simp add: lookup_application_id_def applications_fold_batch_events)
  have same1: "lookup_application_id (batch_events_replaced c ?dp) k = lookup_application_id d k"
    for k
    by (simp add: lookup_application_id_def applications_batch_events_replaced
          applications_fold_batch_events)
  have "events_of (fold batch_events_replaced post (batch_events_replaced c ?dp)) n =
        events_of (batch_events_replaced c ?dp) n"
    using assms(2) by (intro events_of_fold_others) (simp add: same1)
  also have "\<dots> = fetched_events n (majorEventsList c)"
    using assms(1) by (simp add: events_of_batch_events_replaced same)
  finally show ?thesis
    by simp
qed

lemma le_fold_max: "(m::nat) \<le> fold max ids m"
  by (induction ids arbitrary: m) (auto intro: order_trans[OF max.cobounded2])

lemma mem_le_fold_max: "x \<in> set ids \<Longrightarrow> (x::nat) \<le> fold max ids m"
proof (induction ids arbitrary: m)
  case Nil
  then show ?case by simp
next
  case (Cons i ids)
  then show ?case
    using le_fold_max[of "max i m" ids] by auto
qed

lemma fresh_id_fresh: "fresh_id ids \<notin> set ids"
  using mem_le_fold_max[of "fresh_id ids" ids 0] by (auto simp: fresh_id_def)

lemma distinct_ids_upsert: "distinct_ids d \<Longrightarrow> distinct_ids (upsert_application e v d)"
  using fresh_id_fresh[of "map app_id (applications d)"]
  by (auto simp: distinct_ids_def upsert_application_def Let_def o_def on_conflict_update_def
        inserted_application_def if_distrib[of app_id] cong: if_cong)

lemma distinct_ids_fold_upsert:
  "distinct_ids d \<Longrightarrow> distinct_ids (fold (upsert_application e) vs d)"
  by (induction vs arbitrary: d) (simp_all add: distinct_ids_upsert)

lemma lookup_rows_of:
  "lookup_application_id d n = (case rows_of d n of [] \<Rightarrow> None | r # _ \<Rightarrow> Some (app_id r))"
  by (simp add: lookup_application_id_def rows_of_def)

lemma lookup_upsert_stable:
  assumes "lookup_application_id d n = Some k"
  shows "lookup_application_id (upsert_application e v d) n = Some k"
proof (cases "n = v_application_number v")
  case False
  then show ?thesis
    using assms by (simp add: lookup_rows_of rows_of_upsert_other)
next
  case True
  have ne: "rows_of d (v_application_number v) \<noteq> []"
    using assms True by (auto simp: lookup_rows_of split: list.splits)
  show ?thesis
    using assms ne unfolding True lookup_rows_of rows_of_upsert
    by (auto simp: on_conflict_update_def split: list.splits)
qed

lemma lookup_upsert_own:
  "\<exists>k. lookup_application_id (upsert_application e v d) (v_application_number v) = Some k"
  unfolding lookup_rows_of rows_of_upsert by (auto split: list.splits)

lemma lookup_fold_upsert_stable:
  "lookup_application_id d n = Some k \<Longrightarrow>
   lookup_application_id (fold (upsert_application e) vs d) n = Some k"
  by (induction vs arbitrary: d) (simp_all add: lookup_upsert_stable)

lemma lookup_fold_upsert_own:
  "v \<in> set vs \<Longrightarrow>
   \<exists>k. lookup_application_id (fold (upsert_application e) vs d) (v_application_number v) = Some k"
proof (induction vs arbitrary: d)
  case Nil
  then show ?case by simp
next
  case (Cons w vs)
  show ?case
  proof (cases "v \<in> set vs")
    case True
    then show ?thesis using Cons.IH by simp
  next
    case False
    then have "w = v" using Cons.prems by simp
    then show ?thesis
      using lookup_upsert_own[of e v d] lookup_fold_upsert_stable by auto
  qed
qed

lemma lookup_Some_row:
  assumes "lookup_application_id d n = Some k"
  shows "\<exists>r. r \<in> set (applications d) \<and> application_number r = n \<and> app_id r = k"
proof -
  obtain r rs where f: "filter (\<lambda>r. application_number r = n) (applications d) = r # rs"
    and k: "k = app_id r"
    using assms unfolding lookup_application_id_def by (auto split: list.splits)
  have "r \<in> set (filter (\<lambda>r. application_number r = n) (applications d))"
    unfolding f by simp
  then show ?thesis
    using k by auto
qed

lemma lookup_injective:
  assumes "distinct_ids d"
    and "lookup_application_id d n = Some k" "lookup_application_id d n' = Some k"
  shows "n = n'"
proof -
  obtain r where r: "r \<in> set (applications d)" "application_number r = n" "app_id r = k"
    using lookup_Some_row[OF assms(2)] by blast
  obtain r' where r': "r' \<in> set (applications d)" "application_number r' = n'" "app_id r' = k"
    using lookup_Some_row[OF assms(3)] by blast
  have "inj_on app_id (set (applications d))"
    using assms(1) by (simp add: distinct_ids_def distinct_map)
  then have "r = r'"
    using r r' by (auto dest: inj_onD)
  then show ?thesis
    using r r' by simp
qed

lemma exec_representatives:
  "exec_command e
     (if uniqueReps cs \<noteq> [] then [InsertOrIgnoreRepresentatives (uniqueReps cs)] else []) d =
     (fold insert_or_ignore_representative (uniqueReps cs) d, Inr None)"
  by simp

lemma exec_batch_script:
  "exec_command e (buildBatchSQLWithReps cs) d =
     (fold batch_events_replaced (filter has_title cs)
        (fold (upsert_application e)
           (map (\<lambda>c. batchAppValues c (country_of c)) (filter has_title cs))
           (fold insert_or_ignore_representative (uniqueReps cs) d)),
      Inr None)"
proof -
  let ?T = "filter has_title cs"
  let ?R = "if uniqueReps cs \<noteq> [] then [InsertOrIgnoreRepresentatives (uniqueReps cs)] else []"
  let ?V = "map (\<lambda>c. batchAppValues c (country_of c)) ?T"
  let ?A = "map InsertApplicationOnConflictUpdate ?V"
  let ?E = "concat (map batchEventStatements ?T)"
  let ?dR = "fold insert_or_ignore_representative (uniqueReps cs) d"
  have script: "buildBatchSQLWithReps cs = ?R @ ?A @ ?E"
    by (simp add: buildBatchSQLWithReps_def batchStatements_titled batchAppSQL_def o_def)
  show ?thesis
  proof (cases "?T = []")
    case True
    then show ?thesis
      unfolding script by simp
  next
    case False
    then have E: "?E \<noteq> []"
      by (cases ?T) (simp_all add: batchEventStatements_not_Nil)
    have AE: "exec_command e (?A @ ?E) ?dR =
        (fold batch_events_replaced ?T (fold (upsert_application e) ?V ?dR), Inr None)"
      using exec_command_append[OF exec_upserts E, of e ?V ?dR]
      by (simp add: exec_event_statements)
    have "exec_command e (?R @ ?A @ ?E) d = exec_command e (?A @ ?E) ?dR"
    proof (cases "uniqueReps cs = []")
      case True
      then show ?thesis by simp
    next
      case False
      have "?A @ ?E \<noteq> []" using E by simp
      then show ?thesis
        using exec_command_append[OF exec_representatives, of "?A @ ?E" e cs d] by simp
    qed
    then show ?thesis
      unfolding script AE .
  qed
qed

lemma uploadSQL_Inr:
  "uploadSQL e sql a = Some (Inr x, a') \<Longrightarrow> db a' = database_after e sql (db a)"
  by (auto simp: uploadSQL_def Let_def split: if_splits option.splits)

lemma database_after_batch_script:
  "database_after e (buildBatchSQLWithReps cs) d =
     fold batch_events_replaced (filter has_title cs)
       (fold (upsert_application e)
          (map (\<lambda>c. batchAppValues c (country_of c)) (filter has_title cs))
          (fold insert_or_ignore_representative (uniqueReps cs) d))"
  by (simp add: database_after_def exec_batch_script)

lemma batch_mirrors_events:
  assumes up: "uploadSQL e (buildBatchSQLWithReps cs) a = Some (Inr x, a')"
    and ids: "distinct_ids (db a)"
    and cs: "cs = pre @ data # post"
    and title: "has_title data"
    and later: "\<forall>c \<in> set post. has_title c \<longrightarrow>
        template (applicationNumber c) \<noteq> template (applicationNumber data)"
  shows "\<exists>appId. lookup_application_id (db a') (template (applicationNumber data)) = Some appId \<and>
           events_of (db a') appId = fetched_events appId (majorEventsList data)"
proof -
  let ?n = "template (applicationNumber data)"
  let ?T = "filter has_title cs"
  let ?V = "map (\<lambda>c. batchAppValues c (country_of c)) ?T"
  let ?dR = "fold insert_or_ignore_representative (uniqueReps cs) (db a)"
  define dA where "dA = fold (upsert_application e) ?V ?dR"
  have final: "db a' = fold batch_events_replaced ?T dA"
    using uploadSQL_Inr[OF up] unfolding database_after_batch_script dA_def by simp
  have "distinct_ids ?dR"
    using ids by (simp add: distinct_ids_def applications_fold_representatives)
  then have dA: "distinct_ids dA"
    unfolding dA_def by (rule distinct_ids_fold_upsert)
  have T: "?T = filter has_title pre @ data # filter has_title post"
    using title by (simp add: cs)
  have "batchAppValues data (country_of data) \<in> set ?V"
    using title by (auto simp: cs)
  then obtain k where "lookup_application_id dA
      (v_application_number (batchAppValues data (country_of data))) = Some k"
    unfolding dA_def using lookup_fold_upsert_own by blast
  then have k: "lookup_application_id dA ?n = Some k"
    by (simp add: batchAppValues_def)
  have others: "\<forall>c' \<in> set (filter has_title post).
      lookup_application_id dA (template (applicationNumber c')) \<noteq> Some k"
    using later lookup_injective[OF dA _ k] by auto
  have ev: "events_of (db a') k = fetched_events k (majorEventsList data)"
    unfolding final T using k others by (rule events_of_fold_last)
  have "lookup_application_id (db a') ?n = Some k"
    unfolding final using k
    by (simp add: lookup_application_id_def applications_fold_batch_events)
  then show ?thesis
    using ev by blast
qed

subsection \<open>A fetched record without events\<close>

text \<open>
  \<open>saveApplication\<close> never succeeds on a record with no events (whose texts the shell
  leaves as they are).
\<close>

lemma saveApplication_fails_without_events:
  "majorEventsList data = [] \<Longrightarrow> plain_record data \<Longrightarrow> fst (saveApplication e data a) = False"
  using saveApplication_mirrors_events[of e data a "snd (saveApplication e data a)"]
  by (cases "saveApplication e data a") auto

text \<open>
  C1, at its failing input: a fetched record with no events, for the case \<open>5/19\<close> that
  has one event in the database. \<open>saveApplication\<close> builds the \<open>INSERT\<close> of the events
  with nothing after \<open>VALUES\<close>, the command is rejected, and \<open>saveApplication\<close> returns
  \<open>false\<close>: the stale event stays when the failed command is rolled back, and is deleted
  when it is not. On the same input \<open>saveBatch\<close>, whose script holds the \<open>INSERT\<close> only for
  a list with an element, succeeds and leaves the case with no event. (Where the
  persistence succeeds, the events of the case are the fetched ones: lemmas
  \<open>saveApplication_mirrors_events\<close>, \<open>batch_mirrors_events\<close> and
  \<open>last_flag_only_on_final\<close>.)
\<close>

theorem saveApplication_without_events:
  "majorEventsList sample_record_no_events = [] \<and>
   events_of (db sample_adapter) 1 = [sample_event] \<and>
   fst (saveApplication (sample_env site_empty True) sample_record_no_events sample_adapter) =
     False \<and>
   events_of (db (snd (saveApplication (sample_env site_empty True) sample_record_no_events
      sample_adapter))) 1 = [sample_event] \<and>
   fst (saveApplication (sample_env site_empty False) sample_record_no_events sample_adapter) =
     False \<and>
   events_of (db (snd (saveApplication (sample_env site_empty False) sample_record_no_events
      sample_adapter))) 1 = [] \<and>
   map_option fst
     (saveBatch (sample_env site_empty True) [sample_record_no_events] sample_adapter) =
     Some \<lparr>success = 1, failed = 0\<rparr> \<and>
   map_option (\<lambda>p. events_of (db (snd p)) 1)
     (saveBatch (sample_env site_empty True) [sample_record_no_events] sample_adapter) =
     Some []"
  by code_simp

subsection \<open>The not-found counter and the refetch\<close>

lemma rows_of_fold_upsert_others:
  "\<forall>v \<in> set vs. v_application_number v \<noteq> n \<Longrightarrow>
   rows_of (fold (upsert_application e) vs d) n = rows_of d n"
  by (induction vs arbitrary: d) (simp_all add: rows_of_upsert_other[OF not_sym])

lemma representatives_fold_upsert:
  "representatives (fold (upsert_application e) vs d) = representatives d"
  by (induction vs arbitrary: d) (simp_all add: representatives_upsert)

lemma representatives_batch_events_replaced:
  "representatives (batch_events_replaced c d) = representatives d"
  by (simp add: batch_events_replaced_def Let_def representatives_delete_events)

lemma representatives_fold_batch_events:
  "representatives (fold batch_events_replaced cs d) = representatives d"
  by (induction cs arbitrary: d) (simp_all add: representatives_batch_events_replaced)

lemma rows_of_fold_batch_events: "rows_of (fold batch_events_replaced cs d) n = rows_of d n"
  by (simp add: rows_of_def applications_fold_batch_events)

text \<open>
  The rows of a case after the batch script has run through the Import API: those the
  upsert of the last record of the batch with that application number leaves.
\<close>

lemma batch_rows:
  assumes up: "uploadSQL e (buildBatchSQLWithReps cs) a = Some (Inr x, a')"
    and cs: "cs = pre @ data # post"
    and title: "has_title data"
    and later: "\<forall>c \<in> set post. has_title c \<longrightarrow>
        template (applicationNumber c) \<noteq> template (applicationNumber data)"
  shows "rows_of (db a') (template (applicationNumber data)) \<noteq> [] \<and>
     list_all (\<lambda>r. not_found_count r = 0 \<and> fetched_values data r \<and>
                  representative_id r = batch_representative data (db a'))
       (rows_of (db a') (template (applicationNumber data)))"
proof -
  let ?n = "template (applicationNumber data)"
  let ?val = "\<lambda>c. batchAppValues c (country_of c)"
  let ?v = "?val data"
  let ?dR = "fold insert_or_ignore_representative (uniqueReps cs) (db a)"
  define dm where "dm = fold (upsert_application e) (map ?val (filter has_title pre)) ?dR"
  have T: "map ?val (filter has_title cs) =
      map ?val (filter has_title pre) @ ?v # map ?val (filter has_title post)"
    using title by (simp add: cs)
  have final: "db a' = fold batch_events_replaced (filter has_title cs)
      (fold (upsert_application e) (map ?val (filter has_title post)) (upsert_application e ?v dm))"
    using uploadSQL_Inr[OF up] unfolding database_after_batch_script T dm_def by simp
  have n: "v_application_number ?v = ?n"
    by (simp add: batchAppValues_def)
  have others: "\<forall>v \<in> set (map ?val (filter has_title post)). v_application_number v \<noteq> ?n"
    using later by (auto simp: batchAppValues_def)
  have rows: "rows_of (db a') ?n = rows_of (upsert_application e ?v dm) ?n"
    unfolding final by (simp add: rows_of_fold_batch_events rows_of_fold_upsert_others[OF others])
  have reps: "representatives (db a') = representatives dm"
    unfolding final
    by (simp add: representatives_fold_batch_events representatives_fold_upsert
          representatives_upsert)
  have rep: "resolve_representative dm (v_representative ?v) = batch_representative data (db a')"
    using lookup_representative_cong[OF reps]
    by (simp add: batchAppValues_def batch_representative_def split: option.splits)
  have c: "extractCountry (applicationTitle data) = Inr (country_of data)"
    using title by (simp add: extractCountry_has_title)
  have up_rows: "rows_of (upsert_application e ?v dm) ?n =
     (if rows_of dm ?n \<noteq> []
      then map (on_conflict_update ?v (batch_representative data (db a'))) (rows_of dm ?n)
      else [inserted_application e ?v (batch_representative data (db a'))
              (fresh_id (map app_id (applications dm)))])"
    using rows_of_upsert[of e ?v dm] unfolding n rep .
  show ?thesis
  proof (cases "rows_of dm ?n \<noteq> []")
    case True
    then show ?thesis
      unfolding rows up_rows using fetched_values_on_conflict_batch[OF c]
      by (simp add: list_all_iff) (simp add: on_conflict_update_def)
  next
    case False
    then show ?thesis
      unfolding rows up_rows using fetched_values_inserted_batch[OF c]
      by simp (simp add: inserted_application_def batchAppValues_def)
  qed
qed

text \<open>
  What holds of the counter and the refetch for text that the shell leaves as it is. A
  not-found mark that succeeds adds exactly 1 to the counter of the case. A
  \<open>saveApplication\<close> that succeeds on a case already persisted leaves its rows in place
  (same keys), with the counter at 0, with every column derived from the page holding
  the value derived from the fetched record, and with the reference to the representative
  of the fetched name, whatever the row held before. A \<open>saveBatch\<close> whose script has run
  through the Import API (which involves no shell) leaves the same for the last record
  of the batch with the title and the number of a case, also for a case it inserts.
\<close>

lemma refetch_overwrites_plain_text:
  "(shell_plain (num @ ''/'' @ yr) \<longrightarrow> markAsNotFound e num yr a = (True, a') \<longrightarrow>
      map not_found_count (rows_of (db a') (num @ ''/'' @ yr)) =
        map (\<lambda>r. not_found_count r + 1) (rows_of (db a) (num @ ''/'' @ yr))) \<and>
   (plain_record data \<longrightarrow> saveApplication e data a = (True, a'') \<longrightarrow>
    rows_of (db a) (template (applicationNumber data)) \<noteq> [] \<longrightarrow>
      map app_id (rows_of (db a'') (template (applicationNumber data))) =
        map app_id (rows_of (db a) (template (applicationNumber data))) \<and>
      list_all (\<lambda>r. not_found_count r = 0 \<and> fetched_values data r \<and>
                   representative_id r = saved_representative data a (db a''))
        (rows_of (db a'') (template (applicationNumber data)))) \<and>
   (importAPI a \<longrightarrow> \<not> transport_fails e (calls a) \<longrightarrow>
    pollImport e (calls a) 0 = Some (Inr True) \<longrightarrow>
    saveBatch e (pre @ data # post) a = Some (res, b) \<longrightarrow>
    has_title data \<longrightarrow>
    (\<forall>c \<in> set post. has_title c \<longrightarrow>
        template (applicationNumber c) \<noteq> template (applicationNumber data)) \<longrightarrow>
      rows_of (db b) (template (applicationNumber data)) \<noteq> [] \<and>
      list_all (\<lambda>r. not_found_count r = 0 \<and> fetched_values data r \<and>
                   representative_id r = batch_representative data (db b))
        (rows_of (db b) (template (applicationNumber data))))"
proof (intro conjI impI)
  assume "shell_plain (num @ ''/'' @ yr)" "markAsNotFound e num yr a = (True, a')"
  then show "map not_found_count (rows_of (db a') (num @ ''/'' @ yr)) =
        map (\<lambda>r. not_found_count r + 1) (rows_of (db a) (num @ ''/'' @ yr))"
    by (intro not_found_counter_mark)
next
  let ?n = "template (applicationNumber data)"
  assume p: "plain_record data" and s: "saveApplication e data a = (True, a'')"
    and r: "rows_of (db a) ?n \<noteq> []"
  obtain rid ctry where c: "extractCountry (applicationTitle data) = Inr ctry"
    and rows: "rows_of (db a'') ?n =
       map (on_conflict_update (appValues data rid ctry) (saved_representative data a (db a'')))
         (rows_of (db a) ?n)"
    using saveApplication_rows[OF s p r] by blast
  show "map app_id (rows_of (db a'') ?n) = map app_id (rows_of (db a) ?n)"
    by (subst rows) (simp add: on_conflict_update_def)
  show "list_all (\<lambda>r. not_found_count r = 0 \<and> fetched_values data r \<and>
                   representative_id r = saved_representative data a (db a''))
          (rows_of (db a'') ?n)"
    using fetched_values_on_conflict[OF c]
    by (subst rows) (simp add: list_all_iff on_conflict_update_def)
next
  assume "importAPI a" "\<not> transport_fails e (calls a)"
    "pollImport e (calls a) 0 = Some (Inr True)"
    "saveBatch e (pre @ data # post) a = Some (res, b)"
  then have u: "uploadSQL e (buildBatchSQLWithReps (pre @ data # post)) a = Some (Inr True, b)"
    by (simp add: saveBatch_def uploadSQL_def Let_def)
  assume t: "has_title data"
    and l: "\<forall>c \<in> set post. has_title c \<longrightarrow>
        template (applicationNumber c) \<noteq> template (applicationNumber data)"
  show "rows_of (db b) (template (applicationNumber data)) \<noteq> []"
    and "list_all (\<lambda>r. not_found_count r = 0 \<and> fetched_values data r \<and>
                   representative_id r = batch_representative data (db b))
        (rows_of (db b) (template (applicationNumber data)))"
    using batch_rows[OF u refl t l] by simp_all
qed

text \<open>
  C3, at its failing input: the case \<open>5/19\<close> is persisted, and its page is fetched with
  the last major event \<open>Just satisfaction: $5000\<close>. \<open>saveApplication\<close> hands the upsert to
  the shell between double quotes, with the double quotes escaped and nothing else; the
  shell reads \<open>$5\<close> as a positional parameter, which is empty. \<open>saveApplication\<close> returns
  \<open>true\<close>, the counter is 0, and the row holds \<open>Just satisfaction: 000\<close>, which is not
  the fetched value. The same record saved by \<open>saveBatch\<close> through the Import API, which
  uploads the script as a file, is stored as fetched. (For text without a dollar sign,
  a backquote or a backslash both paths store the fetched values: lemma
  \<open>refetch_overwrites_plain_text\<close>.)
\<close>

theorem refetch_stores_expanded_text:
  "applicationNumber dollar_record = Some ''5/19'' \<and>
   lastMajorEvent dollar_record = Some ''Just satisfaction: $5000'' \<and>
   map app_id (rows_of (db sample_adapter) ''5/19'') = [1] \<and>
   fst (saveApplication dollar_env dollar_record sample_adapter) = True \<and>
   map not_found_count
     (rows_of (db (snd (saveApplication dollar_env dollar_record sample_adapter))) ''5/19'') = [0] \<and>
   map last_major_event
     (rows_of (db (snd (saveApplication dollar_env dollar_record sample_adapter))) ''5/19'') =
     [Some ''Just satisfaction: 000''] \<and>
   \<not> list_all (fetched_values dollar_record)
     (rows_of (db (snd (saveApplication dollar_env dollar_record sample_adapter))) ''5/19'') \<and>
   map_option (\<lambda>p. map last_major_event (rows_of (db (snd p)) ''5/19''))
     (saveBatch dollar_env [dollar_record] sample_adapter) =
     Some [Some ''Just satisfaction: $5000''] \<and>
   map_option (\<lambda>p. list_all (fetched_values dollar_record) (rows_of (db (snd p)) ''5/19''))
     (saveBatch dollar_env [dollar_record] sample_adapter) = Some True"
  by code_simp

end
